theory Spec2Isabelle
  imports Complex_Main "HOL-Library.Monad_Syntax" "HOL-Library.Sublist"
begin

section \<open>The mind-map generator of \<^verbatim>\<open>src/app/page.tsx\<close>\<close>

text \<open>
  The only algorithmic part of the repository is \<^verbatim>\<open>generateMindMap\<close> (lines 33-86 of
  \<^verbatim>\<open>src/app/page.tsx\<close>): a linear congruential generator \<^verbatim>\<open>seededRandom\<close>, the ring
  population \<^verbatim>\<open>addRing\<close> and the pairwise edge selection. This theory embeds that function
  and proves the properties its specification states.
\<close>

subsection \<open>JavaScript numbers\<close>

text \<open>
  A JavaScript \<^verbatim>\<open>number\<close> is an IEEE 754 double: a finite value \<open>Fin r\<close>, where \<open>r\<close> is the real
  number that the double denotes, or one of the three special values \<^verbatim>\<open>NaN\<close>, \<^verbatim>\<open>Infinity\<close> and
  \<^verbatim>\<open>-Infinity\<close>. The sign of zero is not modelled: no branch of the generator can observe it.
\<close>

datatype number = NaN | PInf | NInf | Fin real

text \<open>
  Every arithmetic operation computes the exact real result and rounds it to the nearest double,
  ties to the even significand (\<open>to_double\<close>). A double of exponent \<open>e\<close> is a multiple of
  \<open>2 powi (e - 52)\<close>; the exponent of a subnormal number is \<open>- 1022\<close>; a result that rounds to
  \<open>2 ^ 1024\<close> or more in magnitude is an infinity.
\<close>

definition round_half_even :: "real \<Rightarrow> int" where
  "round_half_even t =
     (let f = \<lfloor>t\<rfloor>; d = t - of_int f
      in if d < 1 / 2 then f else if 1 / 2 < d then f + 1 else if even f then f else f + 1)"

definition exponent_of :: "real \<Rightarrow> int" where
  "exponent_of a = max \<lfloor>log 2 a\<rfloor> (- 1022)"

definition ulp_of :: "real \<Rightarrow> real" where
  "ulp_of a = 2 powi (exponent_of a - 52)"

definition round_magnitude :: "real \<Rightarrow> real" where
  "round_magnitude a = ulp_of a * of_int (round_half_even (a / ulp_of a))"

definition rounded :: "real \<Rightarrow> real" where
  "rounded x = sgn x * round_magnitude \<bar>x\<bar>"

definition to_double :: "real \<Rightarrow> number" where
  "to_double x =
     (let y = rounded x
      in if 2 ^ 1024 \<le> \<bar>y\<bar> then (if 0 < y then PInf else NInf) else Fin y)"

text \<open>
  Special values follow ECMAScript: \<^verbatim>\<open>NaN\<close> is contagious, every comparison with \<^verbatim>\<open>NaN\<close> is false,
  \<^verbatim>\<open>Infinity % m\<close> and \<^verbatim>\<open>x % 0\<close> are \<^verbatim>\<open>NaN\<close>, and a division by zero yields an infinity or
  \<^verbatim>\<open>NaN\<close>, never a fault.
\<close>

fun sign_of :: "number \<Rightarrow> real" where
  "sign_of (Fin a) = sgn a"
| "sign_of PInf = 1"
| "sign_of NInf = - 1"
| "sign_of NaN = 0"

definition signed_inf :: "real \<Rightarrow> number" where
  "signed_inf s = (if 0 < s then PInf else if s < 0 then NInf else NaN)"

text \<open>\<^verbatim>\<open>x + y\<close>\<close>

fun jadd :: "number \<Rightarrow> number \<Rightarrow> number" where
  "jadd (Fin a) (Fin b) = to_double (a + b)"
| "jadd NaN _ = NaN"
| "jadd _ NaN = NaN"
| "jadd PInf NInf = NaN"
| "jadd NInf PInf = NaN"
| "jadd PInf _ = PInf"
| "jadd _ PInf = PInf"
| "jadd NInf _ = NInf"
| "jadd _ NInf = NInf"

fun jneg :: "number \<Rightarrow> number" where
  "jneg (Fin a) = Fin (- a)"
| "jneg PInf = NInf"
| "jneg NInf = PInf"
| "jneg NaN = NaN"

text \<open>\<^verbatim>\<open>x - y\<close>\<close>

definition jsub :: "number \<Rightarrow> number \<Rightarrow> number" where
  "jsub x y = jadd x (jneg y)"

text \<open>\<^verbatim>\<open>x * y\<close>: an infinity times zero is \<^verbatim>\<open>NaN\<close>.\<close>

fun jmul :: "number \<Rightarrow> number \<Rightarrow> number" where
  "jmul (Fin a) (Fin b) = to_double (a * b)"
| "jmul NaN _ = NaN"
| "jmul _ NaN = NaN"
| "jmul x y = signed_inf (sign_of x * sign_of y)"

text \<open>\<^verbatim>\<open>x / y\<close>: total; a zero divisor gives an infinity, or \<^verbatim>\<open>NaN\<close> for \<^verbatim>\<open>0 / 0\<close>.\<close>

fun jdiv :: "number \<Rightarrow> number \<Rightarrow> number" where
  "jdiv (Fin a) (Fin b) = (if b = 0 then signed_inf (sgn a) else to_double (a / b))"
| "jdiv NaN _ = NaN"
| "jdiv _ NaN = NaN"
| "jdiv (Fin a) _ = Fin 0"
| "jdiv x (Fin b) = signed_inf (sign_of x * (if b < 0 then - 1 else 1))"
| "jdiv _ _ = NaN"

text \<open>
  \<^verbatim>\<open>x % y\<close> is the remainder of the division truncated towards zero, so it has the sign
  of the dividend. The remainder of two doubles is a double: it is not rounded.
\<close>

definition trunc :: "real \<Rightarrow> int" where
  "trunc x = (if x < 0 then \<lceil>x\<rceil> else \<lfloor>x\<rfloor>)"

fun jmod :: "number \<Rightarrow> number \<Rightarrow> number" where
  "jmod (Fin a) (Fin b) = (if b = 0 then NaN else Fin (a - b * of_int (trunc (a / b))))"
| "jmod (Fin a) PInf = Fin a"
| "jmod (Fin a) NInf = Fin a"
| "jmod _ _ = NaN"

text \<open>\<^verbatim>\<open>x < y\<close> and \<^verbatim>\<open>x > y\<close>\<close>

fun lt :: "number \<Rightarrow> number \<Rightarrow> bool" where
  "lt (Fin a) (Fin b) = (a < b)"
| "lt NInf (Fin _) = True"
| "lt NInf PInf = True"
| "lt (Fin _) PInf = True"
| "lt _ _ = False"

definition gt :: "number \<Rightarrow> number \<Rightarrow> bool" where
  "gt x y = lt y x"

text \<open>\<^verbatim>\<open>x <= y\<close>, used only to state properties: the source has no such comparison.\<close>

definition le :: "number \<Rightarrow> number \<Rightarrow> bool" where
  "le x y = (lt x y \<or> (x = y \<and> x \<noteq> NaN))"

text \<open>
  The functions of \<^verbatim>\<open>Math\<close> that the generator calls. \<^verbatim>\<open>Math.PI\<close> is the double nearest to
  \<open>pi\<close>. ECMAScript leaves the accuracy of \<^verbatim>\<open>Math.cos\<close>, \<^verbatim>\<open>Math.sin\<close>, \<^verbatim>\<open>Math.sqrt\<close> and
  \<^verbatim>\<open>Math.pow\<close> to the implementation; here each returns the double nearest to the exact
  result, which is what IEEE 754 prescribes for the square root and what \<^verbatim>\<open>x * x\<close> gives for a
  square. The properties below need no more of the cosine and the sine than a result within
  one rounding of the exact one.
\<close>

definition Math_PI :: number where
  "Math_PI = Fin (884279719003555 / 281474976710656)"

fun Math_cos :: "number \<Rightarrow> number" where
  "Math_cos (Fin a) = to_double (cos a)"
| "Math_cos _ = NaN"

fun Math_sin :: "number \<Rightarrow> number" where
  "Math_sin (Fin a) = to_double (sin a)"
| "Math_sin _ = NaN"

fun Math_sqrt :: "number \<Rightarrow> number" where
  "Math_sqrt (Fin a) = (if a < 0 then NaN else to_double (sqrt a))"
| "Math_sqrt PInf = PInf"
| "Math_sqrt _ = NaN"

text \<open>\<^verbatim>\<open>Math.pow(x, n)\<close> for a natural exponent (the source only squares).\<close>

fun Math_pow :: "number \<Rightarrow> nat \<Rightarrow> number" where
  "Math_pow (Fin a) n = to_double (a ^ n)"
| "Math_pow NaN n = (if n = 0 then Fin 1 else NaN)"
| "Math_pow PInf n = (if n = 0 then Fin 1 else PInf)"
| "Math_pow NInf n = (if n = 0 then Fin 1 else if even n then PInf else NInf)"

definition Math_max :: "number \<Rightarrow> number \<Rightarrow> number" where
  "Math_max x y = (if x = NaN \<or> y = NaN then NaN else if lt x y then y else x)"

subsection \<open>The data of the generator\<close>

text \<open>\<^verbatim>\<open>CONFIG\<close> (lines 10-20): every field is a \<^verbatim>\<open>number\<close>.\<close>

record config =
  centralNodes :: number
  middleNodes :: number
  outerNodes :: number
  connectionDistance :: number
  connectionProbability :: number
  nodeSize :: number
  lineOpacity :: number
  bloomIntensity :: number
  rotationSpeed :: number

type_synonym vec3 = "number \<times> number \<times> number"

record node =
  position :: vec3

text \<open>\<^verbatim>\<open>Connection\<close>: the fields \<^verbatim>\<open>from\<close> and \<^verbatim>\<open>to\<close> are named \<open>fromPos\<close> and \<open>toPos\<close> here.\<close>

record connection =
  fromPos :: vec3
  toPos :: vec3
  opacity :: number

text \<open>The value that \<^verbatim>\<open>generateMindMap\<close> returns.\<close>

record mindmap =
  nodes :: "node list"
  connections :: "connection list"

text \<open>
  The state of one call: the two arrays and the closure variable \<^verbatim>\<open>seedValue\<close>. The arrays are
  lists without a bound. A JavaScript array holds at most \<open>2 ^ 32 - 1\<close> elements and
  \<^verbatim>\<open>push\<close> raises a \<^verbatim>\<open>RangeError\<close> beyond: a run of the model with fewer pushes is a run
  of the code, a longer one is not. Three more
  fields observe the run and are read by no branch of the model: \<open>draws\<close> counts the calls
  of \<^verbatim>\<open>seededRandom\<close>, \<open>pushed\<close> lists the index pairs \<open>(i, j)\<close> at which a connection was
  pushed, and \<open>divisions\<close> lists the operands of every evaluation of the quotient
  \<^verbatim>\<open>d / config.connectionDistance\<close> of line 79.
\<close>

record gen = mindmap +
  seedValue :: number
  draws :: nat
  pushed :: "(nat \<times> nat) list"
  divisions :: "(number \<times> number) list"

subsection \<open>The seeded generator (lines 34-38)\<close>

definition seededRandom :: "gen \<Rightarrow> number \<times> gen" where
  "seededRandom g =
     (let s = jmod (jadd (jmul (seedValue g) (Fin 9301)) (Fin 49297)) (Fin 233280)
      in (jdiv s (Fin 233280), g\<lparr>seedValue := s, draws := Suc (draws g)\<rparr>))"

subsection \<open>Ring population (lines 43-65)\<close>

text \<open>The radius and height closures handed to \<^verbatim>\<open>addRing\<close>, in the order of the source.\<close>

definition centralRadius :: "gen \<Rightarrow> number \<times> gen" where
  "centralRadius g = (let (u, g') = seededRandom g in (jadd (jmul u (Fin (3 / 2))) (Fin (1 / 2)), g'))"

definition centralHeight :: "gen \<Rightarrow> number \<times> gen" where
  "centralHeight g = (let (u, g') = seededRandom g in (jmul (jsub u (Fin (1 / 2))) (Fin 2), g'))"

definition middleRadius :: "gen \<Rightarrow> number \<times> gen" where
  "middleRadius g = (let (u, g') = seededRandom g in (jadd (jmul u (Fin 2)) (Fin 3), g'))"

definition middleHeight :: "gen \<Rightarrow> number \<times> gen" where
  "middleHeight g = (let (u, g') = seededRandom g in (jmul (jsub u (Fin (1 / 2))) (Fin 2), g'))"

definition outerRadius :: "gen \<Rightarrow> number \<times> gen" where
  "outerRadius g = (let (u, g') = seededRandom g in (jadd (jmul u (Fin 4)) (Fin 5), g'))"

definition outerHeight :: "gen \<Rightarrow> number \<times> gen" where
  "outerHeight g = (let (u, g') = seededRandom g in (jmul (jsub u (Fin (1 / 2))) (Fin 6), g'))"

text \<open>
  The body of the loop of \<^verbatim>\<open>addRing\<close>: the angle is drawn first, then the radius; the
  array literal is evaluated from left to right, so the height is drawn last.
\<close>

definition addRing_body :: "(gen \<Rightarrow> number \<times> gen) \<Rightarrow> (gen \<Rightarrow> number \<times> gen) \<Rightarrow> gen \<Rightarrow> gen" where
  "addRing_body radiusFn heightFn g =
     (let (u, g1) = seededRandom g;
          a = jmul (jmul u Math_PI) (Fin 2);
          (r, g2) = radiusFn g1;
          (h, g3) = heightFn g2
      in g3\<lparr>nodes := nodes g3 @ [\<lparr>position = (jmul (Math_cos a) r, h, jmul (Math_sin a) r)\<rparr>]\<rparr>)"

text \<open>
  \<^verbatim>\<open>for (let i = 0; i < count; i++)\<close>: the counter starts at the argument \<open>i\<close>. It is a
  natural number here; the counter of the source is a double, whose increment is exact below
  \<open>2 ^ 53\<close>, which is more iterations than an array has room for. With \<^verbatim>\<open>count = Infinity\<close> the
  test never fails and the call does not return, which is the value \<open>None\<close>.
\<close>

partial_function (option) addRing_loop ::
  "number \<Rightarrow> (gen \<Rightarrow> number \<times> gen) \<Rightarrow> (gen \<Rightarrow> number \<times> gen) \<Rightarrow> nat \<Rightarrow> gen \<Rightarrow> gen option" where
  "addRing_loop count radiusFn heightFn i g =
     (if lt (Fin (real i)) count
      then addRing_loop count radiusFn heightFn (Suc i) (addRing_body radiusFn heightFn g)
      else Some g)"

definition addRing :: "number \<Rightarrow> (gen \<Rightarrow> number \<times> gen) \<Rightarrow> (gen \<Rightarrow> number \<times> gen) \<Rightarrow> gen \<Rightarrow> gen option" where
  "addRing count radiusFn heightFn g = addRing_loop count radiusFn heightFn 0 g"

subsection \<open>Edge selection (lines 67-83)\<close>

text \<open>\<^verbatim>\<open>xs.forEach((x, i) => f(x, i))\<close> on an array that the callback does not change.\<close>

definition forEach :: "'a list \<Rightarrow> ('a \<Rightarrow> nat \<Rightarrow> 's \<Rightarrow> 's) \<Rightarrow> 's \<Rightarrow> 's" where
  "forEach xs f s = fold (\<lambda>(i, x). f x i) (enumerate 0 xs) s"

text \<open>The distance of lines 70-74.\<close>

fun distance :: "vec3 \<Rightarrow> vec3 \<Rightarrow> number" where
  "distance (x1, y1, z1) (x2, y2, z2) =
     Math_sqrt (jadd (jadd (Math_pow (jsub x1 x2) 2) (Math_pow (jsub y1 y2) 2))
                     (Math_pow (jsub z1 z2) 2))"

text \<open>
  The inner callback (lines 68-82). The operator \<^verbatim>\<open>&&\<close> evaluates its right operand, and
  with it the call of \<^verbatim>\<open>seededRandom\<close>, only when the left one is true. The literal \<^verbatim>\<open>0.2\<close>
  is the double nearest to one fifth.
\<close>

definition visit :: "config \<Rightarrow> node \<Rightarrow> nat \<Rightarrow> node \<Rightarrow> nat \<Rightarrow> gen \<Rightarrow> gen" where
  "visit cfg n i m j g =
     (if i \<ge> j then g
      else let d = distance (position n) (position m) in
        if lt d (connectionDistance cfg) then
          (let (u, g1) = seededRandom g in
           if gt u (connectionProbability cfg) then
             g1\<lparr>connections := connections g1 @
                   [\<lparr>fromPos = position n, toPos = position m,
                     opacity = Math_max (to_double (1 / 5))
                                 (jsub (Fin 1) (jdiv d (connectionDistance cfg)))\<rparr>],
                pushed := pushed g1 @ [(i, j)],
                divisions := divisions g1 @ [(d, connectionDistance cfg)]\<rparr>
           else g1)
        else g)"

definition selectEdges :: "config \<Rightarrow> gen \<Rightarrow> gen" where
  "selectEdges cfg g =
     forEach (nodes g) (\<lambda>n i g1. forEach (nodes g1) (\<lambda>m j. visit cfg n i m j) g1) g"

subsection \<open>The generator (lines 33-86)\<close>

definition init :: "number \<Rightarrow> gen" where
  "init seed = \<lparr>nodes = [], connections = [], seedValue = seed, draws = 0, pushed = [],
                divisions = []\<rparr>"

definition populate :: "config \<Rightarrow> number \<Rightarrow> gen option" where
  "populate cfg seed =
     do {
       g1 \<leftarrow> addRing (centralNodes cfg) centralRadius centralHeight (init seed);
       g2 \<leftarrow> addRing (middleNodes cfg) middleRadius middleHeight g1;
       addRing (outerNodes cfg) outerRadius outerHeight g2
     }"

text \<open>The whole run, with the observing fields kept.\<close>

definition run :: "config \<Rightarrow> number \<Rightarrow> gen option" where
  "run cfg seed = map_option (selectEdges cfg) (populate cfg seed)"

text \<open>\<^verbatim>\<open>return { nodes, connections }\<close>\<close>

definition generateMindMap :: "config \<Rightarrow> number \<Rightarrow> mindmap option" where
  "generateMindMap cfg seed = map_option mindmap.truncate (run cfg seed)"

subsection \<open>The constants of the page (lines 10-21)\<close>

text \<open>A decimal literal denotes the double nearest to it.\<close>

definition CONFIG :: config where
  "CONFIG = \<lparr>centralNodes = Fin 16, middleNodes = Fin 22, outerNodes = Fin 83,
     connectionDistance = to_double (43 / 10), connectionProbability = to_double (35 / 100),
     nodeSize = to_double (8 / 100), lineOpacity = to_double (3 / 10), bloomIntensity = Fin 0,
     rotationSpeed = to_double (5 / 1000)\<rparr>"

definition SEED :: number where
  "SEED = to_double (2640517968528827 / 10000000000000)"

text \<open>A small configuration: two central nodes and the thresholds of \<open>CONFIG\<close>.\<close>

definition two_central :: config where
  "two_central = CONFIG\<lparr>centralNodes := Fin 2, middleNodes := Fin 0, outerNodes := Fin 0\<rparr>"

section \<open>Notions used to state the properties\<close>

text \<open>
  The number of iterations of \<^verbatim>\<open>for (let i = 0; i < count; i++)\<close> for a count other than
  \<^verbatim>\<open>Infinity\<close>: the count itself when it is a natural number, its ceiling when it is a
  positive fraction, and zero when it is negative or \<^verbatim>\<open>NaN\<close>.
\<close>

definition ring_size :: "number \<Rightarrow> nat" where
  "ring_size count = (case count of Fin c \<Rightarrow> nat \<lceil>c\<rceil> | _ \<Rightarrow> 0)"

definition finite_counts :: "config \<Rightarrow> bool" where
  "finite_counts cfg =
     (centralNodes cfg \<noteq> PInf \<and> middleNodes cfg \<noteq> PInf \<and> outerNodes cfg \<noteq> PInf)"

text \<open>The recurrence of the generator on the state alone, and the value returned for a state.\<close>

definition next_seed :: "number \<Rightarrow> number" where
  "next_seed s = jmod (jadd (jmul s (Fin 9301)) (Fin 49297)) (Fin 233280)"

definition unit_of :: "number \<Rightarrow> number" where
  "unit_of s = jdiv s (Fin 233280)"

definition next3 :: "number \<Rightarrow> number" where
  "next3 s = next_seed (next_seed (next_seed s))"

text \<open>
  A seed that is finite and not negative, and for which \<^verbatim>\<open>seedValue * 9301 + 49297\<close> does not
  overflow to \<^verbatim>\<open>Infinity\<close>.
\<close>

definition good :: "number \<Rightarrow> bool" where
  "good s = (case s of Fin r \<Rightarrow> 0 \<le> r \<and> jadd (jmul s (Fin 9301)) (Fin 49297) \<noteq> PInf
             | _ \<Rightarrow> False)"

text \<open>
  A seed that is a natural number small enough for \<^verbatim>\<open>seedValue * 9301 + 49297\<close> to be computed
  without rounding.
\<close>

definition exact_seed :: "number \<Rightarrow> bool" where
  "exact_seed s = (case s of Fin r \<Rightarrow> 0 \<le> r \<and> r = of_int \<lfloor>r\<rfloor> \<and> r * 9301 + 49297 < 2 ^ 53
                   | _ \<Rightarrow> False)"

text \<open>The doubles, as a predicate on the reals.\<close>

definition representable :: "real \<Rightarrow> bool" where
  "representable x =
     (\<exists>m k. \<bar>m\<bar> < 2 ^ 53 \<and> - 1074 \<le> k \<and> k \<le> 971 \<and> x = of_int m * 2 powi k)"

text \<open>A closure that draws one value and applies \<open>F\<close> to it.\<close>

definition drawing :: "(number \<Rightarrow> number) \<Rightarrow> gen \<Rightarrow> number \<times> gen" where
  "drawing F g = (F (unit_of (next_seed (seedValue g))),
                  g\<lparr>seedValue := next_seed (seedValue g), draws := Suc (draws g)\<rparr>)"

definition central_R :: "number \<Rightarrow> number" where
  "central_R u = jadd (jmul u (Fin (3 / 2))) (Fin (1 / 2))"

definition middle_R :: "number \<Rightarrow> number" where
  "middle_R u = jadd (jmul u (Fin 2)) (Fin 3)"

definition outer_R :: "number \<Rightarrow> number" where
  "outer_R u = jadd (jmul u (Fin 4)) (Fin 5)"

definition inner_H :: "number \<Rightarrow> number" where
  "inner_H u = jmul (jsub u (Fin (1 / 2))) (Fin 2)"

definition outer_H :: "number \<Rightarrow> number" where
  "outer_H u = jmul (jsub u (Fin (1 / 2))) (Fin 6)"

text \<open>The node that one iteration of \<^verbatim>\<open>addRing\<close> pushes from the state \<open>s\<close>, and the nodes of
  \<open>k\<close> iterations.\<close>

definition ring_node :: "(number \<Rightarrow> number) \<Rightarrow> (number \<Rightarrow> number) \<Rightarrow> number \<Rightarrow> node" where
  "ring_node R H s =
     (let s1 = next_seed s; s2 = next_seed s1; s3 = next_seed s2;
          a = jmul (jmul (unit_of s1) Math_PI) (Fin 2);
          r = R (unit_of s2)
      in \<lparr>position = (jmul (Math_cos a) r, H (unit_of s3), jmul (Math_sin a) r)\<rparr>)"

fun ring_nodes :: "(number \<Rightarrow> number) \<Rightarrow> (number \<Rightarrow> number) \<Rightarrow> nat \<Rightarrow> number \<Rightarrow> node list" where
  "ring_nodes R H 0 s = []"
| "ring_nodes R H (Suc k) s = ring_node R H s # ring_nodes R H k (next3 s)"

definition central_ring :: "config \<Rightarrow> number \<Rightarrow> node list" where
  "central_ring cfg seed = ring_nodes central_R inner_H (ring_size (centralNodes cfg)) seed"

definition middle_ring :: "config \<Rightarrow> number \<Rightarrow> node list" where
  "middle_ring cfg seed =
     ring_nodes middle_R inner_H (ring_size (middleNodes cfg))
       ((next3 ^^ ring_size (centralNodes cfg)) seed)"

definition outer_ring :: "config \<Rightarrow> number \<Rightarrow> node list" where
  "outer_ring cfg seed =
     ring_nodes outer_R outer_H (ring_size (outerNodes cfg))
       ((next3 ^^ ring_size (middleNodes cfg)) ((next3 ^^ ring_size (centralNodes cfg)) seed))"

text \<open>The state after the three calls of \<^verbatim>\<open>addRing\<close>, when they all return.\<close>

definition populated :: "config \<Rightarrow> number \<Rightarrow> gen" where
  "populated cfg seed =
     \<lparr>nodes = central_ring cfg seed @ middle_ring cfg seed @ outer_ring cfg seed,
      connections = [],
      seedValue = (next3 ^^ ring_size (outerNodes cfg))
        ((next3 ^^ ring_size (middleNodes cfg)) ((next3 ^^ ring_size (centralNodes cfg)) seed)),
      draws = 3 * (ring_size (centralNodes cfg) + ring_size (middleNodes cfg)
                     + ring_size (outerNodes cfg)),
      pushed = [], divisions = []\<rparr>"

text \<open>The index pairs in the order of the two nested \<^verbatim>\<open>forEach\<close>, and those with \<open>i < j\<close>.\<close>

definition all_pairs :: "nat \<Rightarrow> (nat \<times> nat) list" where
  "all_pairs n = List.product [0..<n] [0..<n]"

definition visited_pairs :: "nat \<Rightarrow> (nat \<times> nat) list" where
  "visited_pairs n = filter (\<lambda>(i, j). i < j) (all_pairs n)"

definition visit_at :: "config \<Rightarrow> node list \<Rightarrow> nat \<times> nat \<Rightarrow> gen \<Rightarrow> gen" where
  "visit_at cfg ns = (\<lambda>(i, j). visit cfg (ns ! i) i (ns ! j) j)"

text \<open>The two tests of line 75 and the connection of lines 76-80.\<close>

definition near :: "config \<Rightarrow> node \<Rightarrow> node \<Rightarrow> bool" where
  "near cfg n m = lt (distance (position n) (position m)) (connectionDistance cfg)"

definition accepts :: "config \<Rightarrow> gen \<Rightarrow> bool" where
  "accepts cfg g = gt (unit_of (next_seed (seedValue g))) (connectionProbability cfg)"

definition opacity_of :: "config \<Rightarrow> number \<Rightarrow> number" where
  "opacity_of cfg d =
     Math_max (to_double (1 / 5)) (jsub (Fin 1) (jdiv d (connectionDistance cfg)))"

definition edge_of :: "config \<Rightarrow> node \<Rightarrow> node \<Rightarrow> connection" where
  "edge_of cfg n m = \<lparr>fromPos = position n, toPos = position m,
     opacity = opacity_of cfg (distance (position n) (position m))\<rparr>"

text \<open>
  The planar radius of a node: the exact square root of \<open>x\<^sup>2 + z\<^sup>2\<close>, \<^verbatim>\<open>NaN\<close> when a coordinate is
  not finite. Membership of a half-open interval, and of a closed interval widened by the
  relative tolerance \<open>1 / 2 ^ 50\<close>.
\<close>

definition planar_radius :: "node \<Rightarrow> number" where
  "planar_radius n =
     (case position n of (Fin x, y, Fin z) \<Rightarrow> Fin (sqrt (x\<^sup>2 + z\<^sup>2)) | _ \<Rightarrow> NaN)"

definition in_range :: "real \<Rightarrow> real \<Rightarrow> number \<Rightarrow> bool" where
  "in_range lo hi x = (le (Fin lo) x \<and> lt x (Fin hi))"

definition close_to :: "real \<Rightarrow> real \<Rightarrow> number \<Rightarrow> bool" where
  "close_to lo hi x =
     (le (Fin (lo * (1 - 1 / 2 ^ 50))) x \<and> le x (Fin (hi * (1 + 1 / 2 ^ 50))))"

text \<open>A seed that is not finite.\<close>

definition special :: "number \<Rightarrow> bool" where
  "special s = (s = NaN \<or> s = PInf \<or> s = NInf)"

text \<open>Variations of the page's configuration, used as concrete inputs.\<close>

definition one_central :: config where
  "one_central = CONFIG\<lparr>centralNodes := Fin 1, middleNodes := Fin 0, outerNodes := Fin 0\<rparr>"

definition central_outer :: config where
  "central_outer = CONFIG\<lparr>centralNodes := Fin 1, middleNodes := Fin 0, outerNodes := Fin 1\<rparr>"

definition restyled :: config where
  "restyled = CONFIG\<lparr>nodeSize := to_double (1 / 10), lineOpacity := Fin 1, bloomIntensity := Fin 2,
     rotationSpeed := Fin 0\<rparr>"

definition no_nodes :: config where
  "no_nodes = CONFIG\<lparr>centralNodes := Fin 0, middleNodes := Fin (- 2), outerNodes := Fin 0\<rparr>"

definition zero_distance :: config where
  "zero_distance = CONFIG\<lparr>connectionDistance := Fin 0\<rparr>"

definition always_reject :: config where
  "always_reject = CONFIG\<lparr>connectionProbability := Fin 1\<rparr>"

text \<open>A finite seed so large that \<^verbatim>\<open>seedValue * 9301\<close> overflows to \<^verbatim>\<open>Infinity\<close>.\<close>

definition huge_seed :: number where
  "huge_seed = Fin (2 ^ 1020)"

section \<open>Rounding to the nearest double\<close>


subsection \<open>Rounding to an integer\<close>

lemma rhe_int [simp]: "round_half_even (of_int n) = n"
  by (simp add: round_half_even_def)

lemma rhe_cases: "round_half_even t = \<lfloor>t\<rfloor> \<or> round_half_even t = \<lfloor>t\<rfloor> + 1"
  by (simp add: round_half_even_def Let_def)

lemma rhe_err: "\<bar>of_int (round_half_even t) - t\<bar> \<le> 1 / 2"
proof -
  have "of_int \<lfloor>t\<rfloor> \<le> t" "t < of_int \<lfloor>t\<rfloor> + 1" by linarith+
  then show ?thesis
    by (auto simp: round_half_even_def Let_def)
qed

lemma rhe_mono: "s \<le> t \<Longrightarrow> round_half_even s \<le> round_half_even t"
proof -
  assume st: "s \<le> t"
  then have f: "\<lfloor>s\<rfloor> \<le> \<lfloor>t\<rfloor>" by (rule floor_mono)
  show ?thesis
  proof (cases "\<lfloor>s\<rfloor> = \<lfloor>t\<rfloor>")
    case True
    with st show ?thesis
      by (auto simp: round_half_even_def Let_def)
  next
    case False
    with f have "\<lfloor>s\<rfloor> + 1 \<le> \<lfloor>t\<rfloor>" by simp
    moreover have "round_half_even s \<le> \<lfloor>s\<rfloor> + 1" using rhe_cases[of s] by auto
    moreover have "\<lfloor>t\<rfloor> \<le> round_half_even t" using rhe_cases[of t] by auto
    ultimately show ?thesis by linarith
  qed
qed

subsection \<open>Exponents and powers of two\<close>

lemma ulp_pos [simp]: "0 < ulp_of a"
  by (simp add: ulp_of_def)

lemma ulp_nonneg [simp]: "0 \<le> ulp_of a"
  using ulp_pos[of a] by linarith

lemma floor_log_bounds:
  assumes "0 < a"
  shows "2 powi \<lfloor>log 2 a\<rfloor> \<le> a" "a < 2 powi (\<lfloor>log 2 a\<rfloor> + 1)"
proof -
  have "2 powr of_int \<lfloor>log 2 a\<rfloor> \<le> a \<and> a < 2 powr (of_int \<lfloor>log 2 a\<rfloor> + 1)"
    using floor_log_eq_powr_iff[of a 2 "\<lfloor>log 2 a\<rfloor>"] assms by simp
  moreover have "2 powr of_int \<lfloor>log 2 a\<rfloor> = (2::real) powi \<lfloor>log 2 a\<rfloor>"
    by (rule powr_real_of_int') simp_all
  moreover have "2 powr (of_int \<lfloor>log 2 a\<rfloor> + 1) = (2::real) powi (\<lfloor>log 2 a\<rfloor> + 1)"
    using powr_real_of_int'[of 2 "\<lfloor>log 2 a\<rfloor> + 1"] by simp
  ultimately show "2 powi \<lfloor>log 2 a\<rfloor> \<le> a" "a < 2 powi (\<lfloor>log 2 a\<rfloor> + 1)" by simp_all
qed

lemma floor_log_eq:
  assumes "2 powi e \<le> a" "a < 2 powi (e + 1)"
  shows "\<lfloor>log 2 a\<rfloor> = e"
proof -
  have pos: "0 < a" using assms(1) by (smt (verit) zero_less_power_int)
  have "2 powr of_int e = (2::real) powi e"
    by (rule powr_real_of_int') simp_all
  moreover have "2 powr (of_int e + 1) = (2::real) powi (e + 1)"
    using powr_real_of_int'[of 2 "e + 1"] by simp
  ultimately show ?thesis
    using floor_log_eq_powr_iff[of a 2 e] assms pos by simp
qed

lemma pow2_mono: "i \<le> j \<Longrightarrow> (2::real) powi i \<le> 2 powi j"
  by (rule power_int_increasing) simp_all

lemma pow2_strict_mono: "i < j \<Longrightarrow> (2::real) powi i < 2 powi j"
  by (rule power_int_strict_increasing) simp_all

lemma pow2_add: "(2::real) powi (i + j) = 2 powi i * 2 powi j"
  by (simp add: power_int_add)

lemma pow2_diff: "(2::real) powi (i - j) = 2 powi i / 2 powi j"
  by (simp add: power_int_diff)

lemma pow2_53: "(2::real) powi (e - 52) * 2 ^ 53 = 2 powi (e + 1)"
proof -
  have "(2::real) ^ 53 = 2 powi 53" by simp
  then have "(2::real) powi (e - 52) * 2 ^ 53 = 2 powi (e - 52) * 2 powi 53" by (simp only:)
  also have "\<dots> = 2 powi (e - 52 + 53)" by (simp only: pow2_add)
  also have "e - 52 + 53 = e + 1" by simp
  finally show ?thesis .
qed

lemma pow2_52: "(2::real) powi (e - 52) * 2 ^ 52 = 2 powi e"
proof -
  have "(2::real) ^ 52 = 2 powi 52" by simp
  then have "(2::real) powi (e - 52) * 2 ^ 52 = 2 powi (e - 52) * 2 powi 52" by (simp only:)
  also have "\<dots> = 2 powi (e - 52 + 52)" by (simp only: pow2_add)
  also have "e - 52 + 52 = e" by simp
  finally show ?thesis .
qed

lemma exponent_upper:
  assumes "0 < a"
  shows "a < 2 powi (exponent_of a + 1)"
proof -
  have "a < 2 powi (\<lfloor>log 2 a\<rfloor> + 1)" by (rule floor_log_bounds[OF assms])
  also have "\<dots> \<le> 2 powi (exponent_of a + 1)"
    by (rule pow2_mono) (simp add: exponent_of_def)
  finally show ?thesis .
qed

lemma exponent_lower:
  assumes "0 < a" "- 1022 < exponent_of a"
  shows "2 powi exponent_of a \<le> a"
proof -
  from assms(2) have "exponent_of a = \<lfloor>log 2 a\<rfloor>" by (simp add: exponent_of_def max_def split: if_splits)
  then show ?thesis using floor_log_bounds(1)[OF assms(1)] by simp
qed

lemma exponent_mono:
  assumes "0 < a" "a \<le> b"
  shows "exponent_of a \<le> exponent_of b"
proof -
  have "log 2 a \<le> log 2 b" using assms by simp
  then have "\<lfloor>log 2 a\<rfloor> \<le> \<lfloor>log 2 b\<rfloor>" by (rule floor_mono)
  then show ?thesis by (simp add: exponent_of_def)
qed

subsection \<open>The rounded magnitude\<close>

lemma scaled_upper:
  assumes "0 < a"
  shows "a / ulp_of a < 2 ^ 53"
proof -
  have "a < 2 powi (exponent_of a + 1)" by (rule exponent_upper[OF assms])
  also have "\<dots> = ulp_of a * 2 ^ 53"
    by (simp only: ulp_of_def pow2_53)
  finally show ?thesis by (simp add: pos_divide_less_eq mult.commute)
qed

lemma scaled_lower:
  assumes "0 < a" "- 1022 < exponent_of a"
  shows "2 ^ 52 \<le> a / ulp_of a"
proof -
  have "ulp_of a * 2 ^ 52 = 2 powi exponent_of a"
    by (simp only: ulp_of_def pow2_52)
  also have "\<dots> \<le> a" by (rule exponent_lower[OF assms])
  finally show ?thesis by (simp add: pos_le_divide_eq mult.commute)
qed

lemma magnitude_upper:
  assumes "0 < a"
  shows "round_magnitude a \<le> 2 powi (exponent_of a + 1)"
proof -
  have "round_half_even (a / ulp_of a) \<le> round_half_even (of_int (2 ^ 53))"
    by (rule rhe_mono) (use scaled_upper[OF assms] in simp)
  then have "round_half_even (a / ulp_of a) \<le> 2 ^ 53" by (simp only: rhe_int)
  then have "real_of_int (round_half_even (a / ulp_of a)) \<le> 2 ^ 53"
    by (metis of_int_le_iff of_int_numeral of_int_power)
  then have "round_magnitude a \<le> ulp_of a * 2 ^ 53"
    by (simp add: round_magnitude_def)
  also have "\<dots> = 2 powi (exponent_of a + 1)"
    by (simp only: ulp_of_def pow2_53)
  finally show ?thesis .
qed

lemma magnitude_lower:
  assumes "0 < a" "- 1022 < exponent_of a"
  shows "2 powi exponent_of a \<le> round_magnitude a"
proof -
  have "round_half_even (of_int (2 ^ 52)) \<le> round_half_even (a / ulp_of a)"
    by (rule rhe_mono) (use scaled_lower[OF assms] in simp)
  then have "2 ^ 52 \<le> round_half_even (a / ulp_of a)" by (simp only: rhe_int)
  then have "2 ^ 52 \<le> real_of_int (round_half_even (a / ulp_of a))"
    by (metis of_int_le_iff of_int_numeral of_int_power)
  then have "ulp_of a * 2 ^ 52 \<le> round_magnitude a"
    by (simp add: round_magnitude_def)
  moreover have "ulp_of a * 2 ^ 52 = 2 powi exponent_of a"
    by (simp only: ulp_of_def pow2_52)
  ultimately show ?thesis by simp
qed

lemma magnitude_nonneg: "0 \<le> a \<Longrightarrow> 0 \<le> round_magnitude a"
proof -
  assume "0 \<le> a"
  then have "0 \<le> a / ulp_of a" by simp
  then have "round_half_even (of_int 0) \<le> round_half_even (a / ulp_of a)"
    by (intro rhe_mono) simp
  then have "0 \<le> round_half_even (a / ulp_of a)" by (simp only: rhe_int)
  then show ?thesis by (simp add: round_magnitude_def)
qed

lemma magnitude_mono:
  assumes "0 < a" "a \<le> b"
  shows "round_magnitude a \<le> round_magnitude b"
proof (cases "exponent_of a = exponent_of b")
  case True
  then have u: "ulp_of a = ulp_of b" by (simp add: ulp_of_def)
  have "a / ulp_of b \<le> b / ulp_of b" using assms(2) by (simp add: divide_right_mono)
  then have "round_half_even (a / ulp_of b) \<le> round_half_even (b / ulp_of b)" by (rule rhe_mono)
  then show ?thesis by (simp add: round_magnitude_def u)
next
  case False
  with exponent_mono[OF assms] have lt: "exponent_of a < exponent_of b" by simp
  have b: "0 < b" using assms by simp
  have "- 1022 \<le> exponent_of a" by (simp add: exponent_of_def)
  with lt have nb: "- 1022 < exponent_of b" by simp
  have "round_magnitude a \<le> 2 powi (exponent_of a + 1)" by (rule magnitude_upper[OF assms(1)])
  also have "\<dots> \<le> 2 powi exponent_of b" by (rule pow2_mono) (use lt in simp)
  also have "\<dots> \<le> round_magnitude b" by (rule magnitude_lower[OF b nb])
  finally show ?thesis .
qed

lemma magnitude_exact:
  assumes m: "0 < m" "m < 2 ^ 53" and k: "- 1074 \<le> k" and a: "a = of_int m * 2 powi k"
  shows "round_magnitude a = a"
proof -
  have pos: "0 < a" using m(1) by (simp add: a)
  have "real_of_int m < 2 ^ 53" using m(2) by (metis of_int_less_iff of_int_numeral of_int_power)
  then have "a < 2 ^ 53 * 2 powi k" by (simp add: a)
  also have "\<dots> = 2 powi (k + 53)"
    using pow2_53[of "k + 52"] by (simp add: mult.commute add.commute)
  finally have up: "a < 2 powi (k + 53)" .
  have e: "exponent_of a \<le> k + 52"
  proof (rule ccontr)
    assume "\<not> exponent_of a \<le> k + 52"
    then have big: "k + 53 \<le> exponent_of a" by simp
    with k have "- 1022 < exponent_of a" by simp
    from exponent_lower[OF pos this] have "2 powi exponent_of a \<le> a" .
    moreover have "2 powi (k + 53) \<le> (2::real) powi exponent_of a" by (rule pow2_mono[OF big])
    ultimately show False using up by simp
  qed
  define j where "j = k - (exponent_of a - 52)"
  have j: "0 \<le> j" using e by (simp add: j_def)
  have "a / ulp_of a = of_int m * (2 powi k / 2 powi (exponent_of a - 52))"
    by (simp add: a ulp_of_def)
  also have "2 powi k / 2 powi (exponent_of a - 52) = (2::real) powi j"
    by (simp only: j_def pow2_diff)
  also have "(2::real) powi j = 2 ^ nat j" using j by (simp add: power_int_def)
  finally have "a / ulp_of a = of_int (m * 2 ^ nat j)" by simp
  then have "round_half_even (a / ulp_of a) = m * 2 ^ nat j" by (simp only: rhe_int)
  then have "round_magnitude a = ulp_of a * (a / ulp_of a)"
    using \<open>a / ulp_of a = of_int (m * 2 ^ nat j)\<close> by (simp add: round_magnitude_def)
  moreover have "ulp_of a \<noteq> 0" using ulp_pos[of a] by linarith
  ultimately show ?thesis by simp
qed

lemma magnitude_err:
  assumes "0 < a"
  shows "\<bar>round_magnitude a - a\<bar> \<le> a / 2 ^ 53 + 2 powi (- 1075)"
proof -
  let ?t = "a / ulp_of a"
  have nz: "ulp_of a \<noteq> 0" using ulp_pos[of a] by linarith
  have "round_magnitude a - a = ulp_of a * (of_int (round_half_even ?t) - ?t)"
    using nz by (simp add: round_magnitude_def algebra_simps)
  then have "\<bar>round_magnitude a - a\<bar> = ulp_of a * \<bar>of_int (round_half_even ?t) - ?t\<bar>"
    by (simp add: abs_mult)
  also have "\<dots> \<le> ulp_of a * (1 / 2)"
    by (intro mult_left_mono rhe_err) simp
  finally have half: "\<bar>round_magnitude a - a\<bar> \<le> ulp_of a / 2" by simp
  have "ulp_of a \<le> a / 2 ^ 52 + 2 powi (- 1074)"
  proof (cases "- 1022 < exponent_of a")
    case True
    have "ulp_of a * 2 ^ 52 = 2 powi exponent_of a" by (simp only: ulp_of_def pow2_52)
    also have "\<dots> \<le> a" by (rule exponent_lower[OF assms True])
    finally have "ulp_of a \<le> a / 2 ^ 52" by (simp add: pos_le_divide_eq)
    moreover have "(0::real) \<le> 2 powi (- 1074)" by simp
    ultimately show ?thesis by linarith
  next
    case False
    moreover have "- 1022 \<le> exponent_of a" by (simp add: exponent_of_def)
    ultimately have "exponent_of a = - 1022" by simp
    then have "ulp_of a = 2 powi (- 1074)" by (simp add: ulp_of_def)
    moreover have "0 \<le> a / 2 ^ 52" using assms by simp
    ultimately show ?thesis by linarith
  qed
  then have "ulp_of a / 2 \<le> a / 2 ^ 53 + 2 powi (- 1074) / 2" by simp
  also have "(2::real) powi (- 1074) / 2 = 2 powi (- 1075)"
    using pow2_diff[of "- 1074" 1] by simp
  finally show ?thesis using half by linarith
qed

subsection \<open>Rounding a real number\<close>

text \<open>Rounding is odd, monotone, exact on the doubles, and off by at most half a unit in the
  last place.\<close>

lemma rounded_0 [simp]: "rounded 0 = 0"
  by (simp add: rounded_def)

lemma rounded_minus: "rounded (- x) = - rounded x"
  by (simp add: rounded_def sgn_if)

lemma rounded_pos: "0 < x \<Longrightarrow> rounded x = round_magnitude x"
  by (simp add: rounded_def)

lemma rounded_nonneg: "0 \<le> x \<Longrightarrow> 0 \<le> rounded x"
  by (cases "x = 0") (simp_all add: rounded_pos magnitude_nonneg)

lemma rounded_nonpos: "x \<le> 0 \<Longrightarrow> rounded x \<le> 0"
  using rounded_nonneg[of "- x"] by (simp add: rounded_minus)

lemma rounded_mono:
  assumes "x \<le> y"
  shows "rounded x \<le> rounded y"
proof -
  consider "0 < x" | "x \<le> 0" "0 \<le> y" | "y < 0" by linarith
  then show ?thesis
  proof cases
    case 1
    then show ?thesis using assms magnitude_mono[of x y] by (simp add: rounded_pos)
  next
    case 2
    then show ?thesis using rounded_nonpos[of x] rounded_nonneg[of y] by linarith
  next
    case 3
    then have "0 < - y" "- y \<le> - x" using assms by simp_all
    from magnitude_mono[OF this] have "rounded (- y) \<le> rounded (- x)"
      using 3 assms by (simp add: rounded_pos)
    then show ?thesis by (simp add: rounded_minus)
  qed
qed

lemma rounded_exact:
  assumes "representable x"
  shows "rounded x = x"
proof -
  from assms obtain m k where mk: "\<bar>m\<bar> < 2 ^ 53" "- 1074 \<le> k" "x = of_int m * 2 powi k"
    by (auto simp: representable_def)
  consider "m = 0" | "0 < m" | "m < 0" by linarith
  then show ?thesis
  proof cases
    case 1
    then show ?thesis by (simp add: mk(3))
  next
    case 2
    then have "0 < x" by (simp add: mk(3))
    moreover have "round_magnitude x = x"
      by (rule magnitude_exact[OF 2 _ mk(2,3)]) (use mk(1) in simp)
    ultimately show ?thesis by (simp add: rounded_pos)
  next
    case 3
    then have pos: "0 < - m" by simp
    have "- x = of_int (- m) * 2 powi k" by (simp add: mk(3))
    from magnitude_exact[OF pos _ mk(2) this] mk(1) have "round_magnitude (- x) = - x" by simp
    moreover have "0 < - x" using 3 by (simp add: mk(3) mult_neg_pos)
    ultimately have "rounded (- x) = - x" by (simp add: rounded_pos)
    then show ?thesis by (simp add: rounded_minus)
  qed
qed

lemma rounded_err: "\<bar>rounded x - x\<bar> \<le> \<bar>x\<bar> / 2 ^ 53 + 2 powi (- 1075)"
proof -
  consider "x = 0" | "0 < x" | "x < 0" by linarith
  then show ?thesis
  proof cases
    case 1
    then show ?thesis by simp
  next
    case 2
    then show ?thesis using magnitude_err[of x] by (simp add: rounded_pos)
  next
    case 3
    then have "0 < - x" by simp
    from magnitude_err[OF this] have "\<bar>rounded (- x) - (- x)\<bar> \<le> - x / 2 ^ 53 + 2 powi (- 1075)"
      using 3 by (simp add: rounded_pos)
    then show ?thesis using 3 by (simp add: rounded_minus abs_minus_commute)
  qed
qed

subsection \<open>The result of an operation\<close>

lemma representable_bound:
  assumes "representable x"
  shows "\<bar>x\<bar> < 2 ^ 1024"
proof -
  from assms obtain m k where mk: "\<bar>m\<bar> < 2 ^ 53" "k \<le> 971" "x = of_int m * 2 powi k"
    by (auto simp: representable_def)
  have "\<bar>real_of_int m\<bar> < 2 ^ 53" using mk(1)
    by (metis of_int_abs of_int_less_iff of_int_numeral of_int_power)
  moreover have "(2::real) powi k \<le> 2 powi 971" by (rule pow2_mono[OF mk(2)])
  ultimately have "\<bar>real_of_int m\<bar> * 2 powi k < 2 ^ 53 * 2 powi 971"
    by (intro mult_less_le_imp_less) simp_all
  also have "\<dots> = 2 ^ 1024" by simp
  finally show ?thesis by (simp add: mk(3) abs_mult)
qed

lemma to_double_exact: "representable x \<Longrightarrow> to_double x = Fin x"
  using representable_bound[of x] by (simp add: to_double_def rounded_exact Let_def)

lemma to_double_between:
  assumes "representable lo" "representable hi" "lo \<le> x" "x \<le> hi"
  shows "\<exists>y. to_double x = Fin y \<and> lo \<le> y \<and> y \<le> hi"
proof -
  have "lo \<le> rounded x" using rounded_mono[OF assms(3)] by (simp add: rounded_exact[OF assms(1)])
  moreover have "rounded x \<le> hi" using rounded_mono[OF assms(4)] by (simp add: rounded_exact[OF assms(2)])
  moreover have "\<bar>lo\<bar> < 2 ^ 1024" by (rule representable_bound[OF assms(1)])
  moreover have "\<bar>hi\<bar> < 2 ^ 1024" by (rule representable_bound[OF assms(2)])
  ultimately have "\<bar>rounded x\<bar> < 2 ^ 1024" by linarith
  then show ?thesis using \<open>lo \<le> rounded x\<close> \<open>rounded x \<le> hi\<close>
    by (simp add: to_double_def Let_def del: power_numeral)
qed

lemma to_double_not_NaN [simp]: "to_double x \<noteq> NaN"
  by (simp add: to_double_def Let_def)

lemma to_double_nonneg:
  assumes "0 \<le> x"
  shows "to_double x = PInf \<or> (\<exists>y. 0 \<le> y \<and> to_double x = Fin y)"
  using rounded_nonneg[OF assms] by (auto simp: to_double_def Let_def)

lemma to_double_err: "to_double x = Fin y \<Longrightarrow> \<bar>y - x\<bar> \<le> \<bar>x\<bar> / 2 ^ 53 + 2 powi (- 1075)"
  using rounded_err[of x] by (auto simp: to_double_def Let_def split: if_splits)

lemma representable_int: "\<bar>m\<bar> < 2 ^ 53 \<Longrightarrow> representable (of_int m)"
  unfolding representable_def by (intro exI[of _ m] exI[of _ 0]) simp

lemma representable_frac: "\<bar>m\<bar> < 2 ^ 53 \<Longrightarrow> n \<le> 1074 \<Longrightarrow> representable (of_int m / 2 ^ n)"
  unfolding representable_def
  by (intro exI[of _ m] exI[of _ "- int n"]) (simp add: power_int_def field_simps)

lemma representable_scaled: "\<bar>m\<bar> < 2 ^ 53 \<Longrightarrow> n \<le> 971 \<Longrightarrow> representable (of_int m * 2 ^ n)"
  unfolding representable_def
  by (intro exI[of _ m] exI[of _ "int n"]) (simp add: power_int_def)

lemma to_double_overflow:
  assumes "2 ^ 1024 \<le> x"
  shows "to_double x = PInf"
proof -
  have "round_magnitude (2 ^ 1024) = (2::real) ^ 1024"
    by (rule magnitude_exact[of 1 1024]) simp_all
  moreover have "round_magnitude (2 ^ 1024) \<le> round_magnitude x"
    by (rule magnitude_mono) (use assms in simp_all)
  moreover have "0 < x" using assms by (smt (verit) zero_less_power)
  ultimately show ?thesis
    by (simp add: to_double_def Let_def rounded_pos)
qed

subsection \<open>Evaluating a rounding\<close>

lemma exponent_of_eq:
  assumes "2 powi e \<le> a" "a < 2 powi (e + 1)" "- 1022 \<le> e"
  shows "exponent_of a = e"
  using floor_log_eq[OF assms(1,2)] assms(3) by (simp add: exponent_of_def)

lemma rounded_eval_up:
  assumes "0 < x" "2 ^ 52 \<le> x / 2 ^ j" "x / 2 ^ j < 2 ^ 53"
  shows "rounded x = of_int (round_half_even (x / 2 ^ j)) * 2 ^ j"
proof -
  have p: "(2::real) powi (int j) = 2 ^ j" by (simp add: power_int_def)
  have "(2::real) powi (52 + int j) = 2 powi 52 * 2 powi (int j)" by (simp only: pow2_add)
  then have a: "(2::real) powi (52 + int j) = 2 ^ 52 * 2 ^ j" by (simp add: p)
  have "(2::real) powi (53 + int j) = 2 powi 53 * 2 powi (int j)" by (simp only: pow2_add)
  then have b: "(2::real) powi (53 + int j) = 2 ^ 53 * 2 ^ j" by (simp add: p)
  have lo: "2 powi (52 + int j) \<le> x" using assms(2) by (simp add: a pos_le_divide_eq)
  have "x < 2 powi (53 + int j)" using assms(3) by (simp add: b pos_divide_less_eq)
  then have hi: "x < 2 powi (52 + int j + 1)" by simp
  have "exponent_of x = 52 + int j"
    by (rule exponent_of_eq[OF lo hi]) simp
  then have "ulp_of x = 2 ^ j" by (simp add: ulp_of_def p)
  then show ?thesis using assms(1) by (simp add: rounded_pos round_magnitude_def mult.commute)
qed

lemma rounded_eval_down:
  assumes "0 < x" "2 ^ 52 \<le> x * 2 ^ j" "x * 2 ^ j < 2 ^ 53" "j \<le> 1074"
  shows "rounded x = of_int (round_half_even (x * 2 ^ j)) / 2 ^ j"
proof -
  have p: "(2::real) powi (- int j) = 1 / 2 ^ j" by (simp add: power_int_def field_simps)
  have "(2::real) powi (52 - int j) = 2 powi 52 * 2 powi (- int j)"
    by (simp only: pow2_add[symmetric]) simp
  then have a: "(2::real) powi (52 - int j) = 2 ^ 52 / 2 ^ j" by (simp add: p)
  have "(2::real) powi (53 - int j) = 2 powi 53 * 2 powi (- int j)"
    by (simp only: pow2_add[symmetric]) simp
  then have b: "(2::real) powi (53 - int j) = 2 ^ 53 / 2 ^ j" by (simp add: p)
  have lo: "2 powi (52 - int j) \<le> x" using assms(2) by (simp add: a pos_divide_le_eq)
  have "x < 2 powi (53 - int j)" using assms(3) by (simp add: b pos_less_divide_eq)
  then have hi: "x < 2 powi (52 - int j + 1)" by simp
  have "exponent_of x = 52 - int j"
    by (rule exponent_of_eq[OF lo hi]) (use assms(4) in simp)
  then have "ulp_of x = 1 / 2 ^ j" by (simp add: ulp_of_def p)
  then show ?thesis using assms(1) by (simp add: rounded_pos round_magnitude_def)
qed

lemma rounded_grid:
  assumes "2 ^ 17 \<le> rounded x"
  shows "\<exists>n::int. rounded x = of_int n / 2 ^ 35"
proof -
  have pos: "0 < x"
  proof (rule ccontr)
    assume "\<not> 0 < x"
    then have "rounded x \<le> 0" by (intro rounded_nonpos) simp
    with assms show False by (smt (verit) zero_less_power)
  qed
  let ?e = "exponent_of x" and ?N = "round_half_even (x / ulp_of x)"
  have y: "rounded x = ulp_of x * of_int ?N" using pos by (simp add: rounded_pos round_magnitude_def)
  show ?thesis
  proof (cases "17 \<le> ?e")
    case True
    have "(2::real) powi (?e - 52) = 2 powi (?e - 17) / 2 powi 35"
      by (simp only: pow2_diff[symmetric]) simp
    also have "(2::real) powi (?e - 17) = 2 ^ nat (?e - 17)" using True by (simp add: power_int_def)
    finally have "ulp_of x = 2 ^ nat (?e - 17) / 2 ^ 35" by (simp add: ulp_of_def)
    then have "rounded x = of_int (2 ^ nat (?e - 17) * ?N) / 2 ^ 35" by (simp add: y)
    then show ?thesis by blast
  next
    case False
    then have "?e + 1 \<le> 17" by simp
    then have "(2::real) powi (?e + 1) \<le> 2 powi 17" by (rule pow2_mono)
    moreover have "rounded x \<le> 2 powi (?e + 1)" using magnitude_upper[OF pos] pos by (simp add: rounded_pos)
    ultimately have "rounded x \<le> 2 ^ 17" by simp
    with assms have "rounded x = of_int (2 ^ 52) / 2 ^ 35" by simp
    then show ?thesis by blast
  qed
qed


section \<open>The loop of \<^verbatim>\<open>addRing\<close>\<close>

lemma lt_index: "count \<noteq> PInf \<Longrightarrow> lt (Fin (real i)) count = (i < ring_size count)"
proof (cases count)
  case (Fin c)
  have "(i < nat \<lceil>c\<rceil>) = (int i < \<lceil>c\<rceil>)" by (rule zless_nat_eq_int_zless)
  also have "\<dots> = (real i < c)" by (simp add: less_ceiling_iff)
  finally show ?thesis using Fin by (simp add: ring_size_def)
qed (simp_all add: ring_size_def)

lemma ring_size_natural: "ring_size (Fin (real n)) = n"
  by (simp add: ring_size_def)

lemma addRing_loop_finite:
  "count \<noteq> PInf \<Longrightarrow>
   addRing_loop count rf hf i g = Some ((addRing_body rf hf ^^ (ring_size count - i)) g)"
proof (induction "ring_size count - i" arbitrary: i g)
  case 0
  then show ?case
    by (subst addRing_loop.simps) (simp add: lt_index)
next
  case (Suc k)
  from Suc.hyps(2) have less: "i < ring_size count" and k: "k = ring_size count - Suc i"
    by linarith+
  have step: "ring_size count - i = Suc (ring_size count - Suc i)"
    using less by linarith
  show ?case
    using Suc.hyps(1)[OF k Suc.prems] less Suc.prems
    by (subst addRing_loop.simps) (simp add: lt_index step funpow_swap1)
qed

lemma addRing_loop_PInf: "addRing_loop PInf rf hf i g = None"
proof -
  have "addRing_loop count rf hf i g = Some y \<Longrightarrow> count \<noteq> PInf" for count y
    by (rule addRing_loop.raw_induct[where P = "\<lambda>count rf hf i g y. count \<noteq> PInf"])
       (auto split: if_splits)
  then show ?thesis
    by (cases "addRing_loop PInf rf hf i g") auto
qed

section \<open>Edge selection as a fold over the visited pairs\<close>

lemma seededRandom_eq:
  "seededRandom g =
     (unit_of (next_seed (seedValue g)),
      g\<lparr>seedValue := next_seed (seedValue g), draws := Suc (draws g)\<rparr>)"
  by (simp add: seededRandom_def next_seed_def unit_of_def Let_def)

lemma forEach_indices: "forEach xs f s = fold (\<lambda>i. f (xs ! i) i) [0..<length xs] s"
proof -
  have "enumerate 0 xs = map (\<lambda>i. (i, xs ! i)) [0..<length xs]"
    by (simp add: enumerate_eq_zip zip_eq_conv map_nth comp_def)
  then show ?thesis
    by (simp add: forEach_def fold_map comp_def)
qed

lemma nodes_visit [simp]: "nodes (visit cfg n i m j g) = nodes g"
  by (simp add: visit_def seededRandom_eq Let_def)

lemma fold_cong_inv:
  "I s \<Longrightarrow> (\<And>x t. x \<in> set xs \<Longrightarrow> I t \<Longrightarrow> f x t = f' x t \<and> I (f' x t)) \<Longrightarrow>
   fold f xs s = fold f' xs s \<and> I (fold f' xs s)"
  by (induction xs arbitrary: s) auto

lemma nodes_fold_visit [simp]:
  "nodes (fold (\<lambda>j. visit cfg n i (ms j) j) js g) = nodes g"
  by (induction js arbitrary: g) auto

lemma fold_product:
  "fold (\<lambda>i. fold (\<lambda>j. f (i, j)) ys) xs s = fold f (List.product xs ys) s"
  by (induction xs arbitrary: s) (simp_all add: fold_map comp_def)

lemma selectEdges_all_pairs:
  "selectEdges cfg g = fold (visit_at cfg (nodes g)) (all_pairs (length (nodes g))) g"
proof -
  let ?ns = "nodes g" and ?n = "length (nodes g)"
  let ?inner = "\<lambda>i g1. fold (\<lambda>j. visit cfg (?ns ! i) i (nodes g1 ! j) j) [0..<length (nodes g1)] g1"
  let ?inner' = "\<lambda>i. fold (\<lambda>j. visit_at cfg ?ns (i, j)) [0..<?n]"
  have "selectEdges cfg g = fold ?inner [0..<?n] g"
    by (simp add: selectEdges_def forEach_indices)
  also have "\<dots> = fold ?inner' [0..<?n] g"
    using fold_cong_inv[where I = "\<lambda>t. nodes t = ?ns" and f = ?inner and f' = ?inner'
        and xs = "[0..<?n]" and s = g]
    by (simp add: visit_at_def)
  also have "\<dots> = fold (visit_at cfg ?ns) (all_pairs ?n) g"
    by (simp add: fold_product all_pairs_def)
  finally show ?thesis .
qed

lemma visit_skip: "j \<le> i \<Longrightarrow> visit cfg n i m j g = g"
  by (simp add: visit_def)

lemma fold_filter_id:
  "(\<And>x s. x \<in> set xs \<Longrightarrow> \<not> P x \<Longrightarrow> f x s = s) \<Longrightarrow> fold f (filter P xs) s = fold f xs s"
  by (induction xs arbitrary: s) auto

lemma selectEdges_visited_pairs:
  "selectEdges cfg g = fold (visit_at cfg (nodes g)) (visited_pairs (length (nodes g))) g"
  unfolding selectEdges_all_pairs visited_pairs_def
  by (rule fold_filter_id[symmetric]) (auto simp: visit_at_def visit_skip)

lemma Math_sqrt_cases:
  "Math_sqrt x = NaN \<or> Math_sqrt x = PInf \<or> (\<exists>r. 0 \<le> r \<and> Math_sqrt x = Fin r)"
proof (cases x)
  case (Fin a)
  show ?thesis using to_double_nonneg[of "sqrt a"] by (auto simp: Fin)
qed auto

lemma lt_distance:
  assumes "lt (distance p q) c"
  shows "\<exists>r. distance p q = Fin r \<and> 0 \<le> r"
proof -
  obtain x1 y1 z1 x2 y2 z2 where p: "p = (x1, y1, z1)" and q: "q = (x2, y2, z2)"
    by (metis prod_cases3)
  show ?thesis
    using assms Math_sqrt_cases[of "jadd (jadd (Math_pow (jsub x1 x2) 2) (Math_pow (jsub y1 y2) 2))
                     (Math_pow (jsub z1 z2) 2)"]
    by (auto simp: p q)
qed

lemma distance_not_negative: "\<not> lt (distance p q) (Fin 0)"
  using lt_distance[of p q "Fin 0"] by auto

lemma visit_eq:
  "visit cfg n i m j g =
    (if j \<le> i \<or> \<not> near cfg n m then g
     else if accepts cfg g then
       g\<lparr>seedValue := next_seed (seedValue g), draws := Suc (draws g),
         connections := connections g @ [edge_of cfg n m],
         pushed := pushed g @ [(i, j)],
         divisions := divisions g @ [(distance (position n) (position m), connectionDistance cfg)]\<rparr>
     else g\<lparr>seedValue := next_seed (seedValue g), draws := Suc (draws g)\<rparr>)"
  by (simp add: visit_def seededRandom_eq Let_def near_def accepts_def edge_of_def opacity_of_def)

lemma draws_visit:
  "i < j \<Longrightarrow> draws (visit cfg n i m j g) = draws g + (if near cfg n m then 1 else 0)"
  by (simp add: visit_eq)

lemma fold_pushed:
  "distinct ps \<Longrightarrow>
   \<exists>qs. pushed (fold (visit_at cfg ns) ps g) = pushed g @ qs \<and> subseq qs ps"
proof (induction ps arbitrary: g)
  case Nil
  then show ?case by simp
next
  case (Cons p ps)
  obtain i j where p: "p = (i, j)" by (cases p)
  let ?g = "visit_at cfg ns p g"
  from Cons obtain qs where qs: "pushed (fold (visit_at cfg ns) ps ?g) = pushed ?g @ qs"
    and sub: "subseq qs ps" by (metis distinct.simps(2))
  have "pushed ?g = pushed g \<or> pushed ?g = pushed g @ [p]"
    by (simp add: visit_at_def p visit_eq)
  then show ?case
  proof
    assume "pushed ?g = pushed g"
    then show ?thesis using qs sub by (auto intro: exI[of _ qs])
  next
    assume "pushed ?g = pushed g @ [p]"
    then show ?thesis using qs sub by (auto intro: exI[of _ "p # qs"])
  qed
qed

lemma fold_connections:
  "map (\<lambda>(i, j). edge_of cfg (ns ! i) (ns ! j)) (pushed g) = connections g \<Longrightarrow>
   map (\<lambda>(i, j). edge_of cfg (ns ! i) (ns ! j)) (pushed (fold (visit_at cfg ns) ps g))
     = connections (fold (visit_at cfg ns) ps g)"
proof (induction ps arbitrary: g)
  case Nil
  then show ?case by simp
next
  case (Cons p ps)
  obtain i j where p: "p = (i, j)" by (cases p)
  have "map (\<lambda>(i, j). edge_of cfg (ns ! i) (ns ! j)) (pushed (visit_at cfg ns p g))
          = connections (visit_at cfg ns p g)"
    using Cons.prems by (simp add: visit_at_def p visit_eq)
  from Cons.IH[OF this] show ?case by simp
qed

lemma fold_divisions:
  "map (\<lambda>(i, j). (distance (position (ns ! i)) (position (ns ! j)), connectionDistance cfg)) (pushed g) = divisions g \<Longrightarrow>
   map (\<lambda>(i, j). (distance (position (ns ! i)) (position (ns ! j)), connectionDistance cfg)) (pushed (fold (visit_at cfg ns) ps g))
     = divisions (fold (visit_at cfg ns) ps g)"
proof (induction ps arbitrary: g)
  case Nil
  then show ?case by simp
next
  case (Cons p ps)
  obtain i j where p: "p = (i, j)" by (cases p)
  have "map (\<lambda>(i, j). (distance (position (ns ! i)) (position (ns ! j)), connectionDistance cfg)) (pushed (visit_at cfg ns p g))
          = divisions (visit_at cfg ns p g)"
    using Cons.prems by (simp add: visit_at_def p visit_eq)
  from Cons.IH[OF this] show ?case by simp
qed

lemma fold_near:
  "\<forall>(i, j) \<in> set (pushed g). near cfg (ns ! i) (ns ! j) \<Longrightarrow>
   \<forall>(i, j) \<in> set (pushed (fold (visit_at cfg ns) ps g)). near cfg (ns ! i) (ns ! j)"
proof (induction ps arbitrary: g)
  case Nil
  then show ?case by simp
next
  case (Cons p ps)
  obtain i j where p: "p = (i, j)" by (cases p)
  have "\<forall>(i, j) \<in> set (pushed (visit_at cfg ns p g)). near cfg (ns ! i) (ns ! j)"
    using Cons.prems by (auto simp: visit_at_def p visit_eq)
  from Cons.IH[OF this] show ?case by simp
qed

lemma fold_draws:
  "draws (fold (visit_at cfg ns) ps g) =
     draws g + length (filter (\<lambda>(i, j). i < j \<and> near cfg (ns ! i) (ns ! j)) ps)"
proof (induction ps arbitrary: g)
  case Nil
  then show ?case by simp
next
  case (Cons p ps)
  obtain i j where p: "p = (i, j)" by (cases p)
  show ?case
    by (simp add: Cons.IH) (auto simp: visit_at_def p visit_eq)
qed

lemma visited_pairs_set: "set (visited_pairs n) = {(i, j). i < j \<and> j < n}"
  by (auto simp: visited_pairs_def all_pairs_def)

lemma visited_pairs_distinct: "distinct (visited_pairs n)"
  by (simp add: visited_pairs_def all_pairs_def distinct_product)

section \<open>Ring population in closed form\<close>

lemma closures:
  "centralRadius = drawing central_R" "centralHeight = drawing inner_H"
  "middleRadius = drawing middle_R" "middleHeight = drawing inner_H"
  "outerRadius = drawing outer_R" "outerHeight = drawing outer_H"
  by (auto simp: fun_eq_iff centralRadius_def centralHeight_def middleRadius_def middleHeight_def
      outerRadius_def outerHeight_def drawing_def seededRandom_eq central_R_def middle_R_def
      outer_R_def inner_H_def outer_H_def)

lemma addRing_body_eq:
  "addRing_body (drawing R) (drawing H) g =
     g\<lparr>nodes := nodes g @ [ring_node R H (seedValue g)],
       seedValue := next3 (seedValue g), draws := draws g + 3\<rparr>"
  by (simp add: addRing_body_def drawing_def seededRandom_eq ring_node_def next3_def Let_def)

lemma funpow_body:
  "(addRing_body (drawing R) (drawing H) ^^ k) g =
     g\<lparr>nodes := nodes g @ ring_nodes R H k (seedValue g),
       seedValue := (next3 ^^ k) (seedValue g), draws := draws g + 3 * k\<rparr>"
proof (induction k arbitrary: g)
  case 0
  then show ?case by simp
next
  case (Suc k)
  have "(addRing_body (drawing R) (drawing H) ^^ Suc k) g =
          (addRing_body (drawing R) (drawing H) ^^ k) (addRing_body (drawing R) (drawing H) g)"
    by (simp add: funpow_swap1)
  also have "\<dots> = g\<lparr>nodes := nodes g @ ring_nodes R H (Suc k) (seedValue g),
       seedValue := (next3 ^^ Suc k) (seedValue g), draws := draws g + 3 * Suc k\<rparr>"
    unfolding Suc.IH by (simp add: addRing_body_eq funpow_swap1)
  finally show ?case .
qed

lemma addRing_eq:
  "count \<noteq> PInf \<Longrightarrow>
   addRing count (drawing R) (drawing H) g =
     Some (g\<lparr>nodes := nodes g @ ring_nodes R H (ring_size count) (seedValue g),
             seedValue := (next3 ^^ ring_size count) (seedValue g),
             draws := draws g + 3 * ring_size count\<rparr>)"
  by (simp add: addRing_def addRing_loop_finite funpow_body)

lemma populate_eq: "finite_counts cfg \<Longrightarrow> populate cfg seed = Some (populated cfg seed)"
  by (simp add: populate_def closures addRing_eq finite_counts_def init_def central_ring_def
      middle_ring_def outer_ring_def populated_def)

lemma populate_None: "\<not> finite_counts cfg \<Longrightarrow> populate cfg seed = None"
  by (auto simp: populate_def finite_counts_def closures addRing_def addRing_loop_PInf
      addRing_loop_finite split: Option.bind_split)


section \<open>The values of the generator\<close>

lemma to_double_cases:
  "to_double x = PInf \<or> to_double x = NInf \<or> to_double x = Fin (rounded x)"
  by (simp add: to_double_def Let_def)

lemma to_double_Fin: "to_double x = Fin y \<Longrightarrow> y = rounded x"
  by (simp add: to_double_def Let_def split: if_splits)

lemma representable_0 [simp]: "representable 0"
  using representable_int[of 0] by simp

lemma representable_1 [simp]: "representable 1"
  using representable_int[of 1] by simp

lemma representable_numeral [simp]: "numeral w < (2::int) ^ 53 \<Longrightarrow> representable (numeral w)"
  using representable_int[of "numeral w"] by simp

lemma representable_neg: "representable x \<Longrightarrow> representable (- x)"
  unfolding representable_def
  by (elim exE conjE, rule_tac x = "- m" in exI, rule_tac x = k in exI) simp

lemma to_double_abs_le:
  assumes "representable b" "\<bar>x\<bar> \<le> b"
  shows "\<exists>y. to_double x = Fin y \<and> \<bar>y\<bar> \<le> b"
proof -
  have "- b \<le> x" "x \<le> b" using assms(2) by linarith+
  from to_double_between[OF representable_neg[OF assms(1)] assms(1) this]
  show ?thesis by (auto simp: abs_le_iff)
qed

lemma rem_bounds:
  fixes x m :: real
  assumes "0 \<le> x" "0 < m"
  shows "0 \<le> x - m * of_int (trunc (x / m))" "x - m * of_int (trunc (x / m)) < m"
    "x - m * of_int (trunc (x / m)) \<le> x"
proof -
  have nn: "0 \<le> x / m" using assms by simp
  then have t: "trunc (x / m) = \<lfloor>x / m\<rfloor>" by (simp add: trunc_def)
  have "of_int \<lfloor>x / m\<rfloor> \<le> x / m" by simp
  then have "m * of_int \<lfloor>x / m\<rfloor> \<le> m * (x / m)" using assms(2)
    by (intro mult_left_mono) simp_all
  then have "m * of_int \<lfloor>x / m\<rfloor> \<le> x" using assms(2) by simp
  then show "0 \<le> x - m * of_int (trunc (x / m))" by (simp add: t)
  have "x / m < of_int \<lfloor>x / m\<rfloor> + 1" by linarith
  then have "m * (x / m) < m * (of_int \<lfloor>x / m\<rfloor> + 1)" using assms(2)
    by (intro mult_strict_left_mono) simp_all
  then have "x < m * (of_int \<lfloor>x / m\<rfloor> + 1)" using assms(2) by simp
  then show "x - m * of_int (trunc (x / m)) < m" by (simp add: t algebra_simps)
  have "0 \<le> \<lfloor>x / m\<rfloor>" using nn by simp
  then have "0 \<le> m * of_int \<lfloor>x / m\<rfloor>" using assms(2) by simp
  then show "x - m * of_int (trunc (x / m)) \<le> x" by (simp add: t)
qed




lemma next_seed_special: "s = NaN \<or> s = PInf \<or> s = NInf \<Longrightarrow> next_seed s = NaN"
  by (auto simp: next_seed_def signed_inf_def)

lemma unit_of_NaN [simp]: "unit_of NaN = NaN"
  by (simp add: unit_of_def)

lemma unit_of_Fin: "unit_of (Fin r) = to_double (r / 233280)"
  by (simp add: unit_of_def)


lemma next_seed_good:
  assumes "good s"
  shows "\<exists>r. next_seed s = Fin r \<and> 0 \<le> r \<and> r \<le> 233280 - 1 / 2 ^ 35"
proof -
  from assms obtain a where a: "s = Fin a" "0 \<le> a"
    and fin: "jadd (jmul (Fin a) (Fin 9301)) (Fin 49297) \<noteq> PInf"
    by (cases s) (auto simp: good_def)
  have "0 \<le> a * 9301" using a(2) by simp
  from to_double_nonneg[OF this] fin obtain y where y: "to_double (a * 9301) = Fin y" "0 \<le> y"
    by auto
  have "0 \<le> y + 49297" using y(2) by simp
  from to_double_nonneg[OF this] fin y(1) obtain b where
    b: "to_double (y + 49297) = Fin b" "0 \<le> b"
    by auto
  define r where "r = b - 233280 * of_int (trunc (b / 233280))"
  have ns: "next_seed s = Fin r"
    by (simp add: next_seed_def a(1) y(1) b(1) r_def)
  have r0: "0 \<le> r" and r1: "r < 233280" and r2: "r \<le> b"
    using rem_bounds[OF b(2), of 233280] by (simp_all add: r_def)
  have "r \<le> 233280 - 1 / 2 ^ 35"
  proof (cases "2 ^ 17 \<le> b")
    case True
    have "b = rounded (y + 49297)" by (rule to_double_Fin[OF b(1)])
    with True rounded_grid[of "y + 49297"] obtain n :: int where n: "b = of_int n / 2 ^ 35"
      by auto
    define N where "N = n - 233280 * 2 ^ 35 * trunc (b / 233280)"
    have rN: "r = of_int N / 2 ^ 35"
      by (simp add: r_def N_def n field_simps)
    with r1 have "real_of_int N < 233280 * 2 ^ 35" by (simp add: field_simps)
    then have "real_of_int N < of_int (233280 * 2 ^ 35)" by simp
    then have "N < 233280 * 2 ^ 35" by (simp only: of_int_less_iff)
    then have "N \<le> 233280 * 2 ^ 35 - 1" by simp
    then have "real_of_int N \<le> of_int (233280 * 2 ^ 35 - 1)" by (simp only: of_int_le_iff)
    then have "real_of_int N \<le> 233280 * 2 ^ 35 - 1" by simp
    then show ?thesis by (simp add: rN field_simps)
  next
    case False
    then have "b < 2 ^ 17" by simp
    with r2 show ?thesis by simp
  qed
  with ns r0 show ?thesis by blast
qed

lemma unit_of_good:
  assumes "good s"
  shows "\<exists>t. unit_of (next_seed s) = Fin t \<and> 0 \<le> t \<and> t \<le> 1 - 1 / 2 ^ 53"
proof -
  from next_seed_good[OF assms] obtain r where
    r: "next_seed s = Fin r" "0 \<le> r" "r \<le> 233280 - 1 / 2 ^ 35" by auto
  have rep: "representable (1 - 1 / 2 ^ 53)"
    using representable_frac[of "2 ^ 53 - 1" 53] by (simp add: field_simps)
  have "r / 233280 \<le> (233280 - 1 / 2 ^ 35) / 233280" using r(3) by (simp add: divide_right_mono)
  also have "\<dots> \<le> 1 - 1 / 2 ^ 53" by simp
  finally have up: "r / 233280 \<le> 1 - 1 / 2 ^ 53" .
  have lo: "0 \<le> r / 233280" using r(2) by simp
  from to_double_between[OF representable_0 rep lo up] show ?thesis
    by (simp add: r(1) unit_of_Fin)
qed

lemma good_bounded:
  assumes "0 \<le> r" "r \<le> 2 ^ 1000"
  shows "good (Fin r)"
proof -
  have rep1: "representable (2 ^ 1014)" using representable_scaled[of 1 971] representable_scaled[of "2 ^ 43" 971]
    by simp
  have rep2: "representable (2 ^ 1015)" using representable_scaled[of "2 ^ 44" 971] by simp
  have "r * 9301 \<le> 2 ^ 1000 * 2 ^ 14" using assms by (intro mult_mono) simp_all
  then have "r * 9301 \<le> 2 ^ 1014" by simp
  moreover have "0 \<le> r * 9301" using assms(1) by simp
  ultimately obtain y where y: "to_double (r * 9301) = Fin y" "0 \<le> y" "y \<le> 2 ^ 1014"
    using to_double_between[OF representable_0 rep1] by blast
  have "y + 49297 \<le> 2 ^ 1014 + 2 ^ 1014" using y(3) by (intro add_mono) simp_all
  then have "y + 49297 \<le> 2 ^ 1015" by simp
  moreover have "0 \<le> y + 49297" using y(2) by simp
  ultimately obtain b where "to_double (y + 49297) = Fin b"
    using to_double_between[OF representable_0 rep2] by blast
  then show ?thesis using assms(1) by (simp add: good_def y(1))
qed

lemma good_next_seed: "good s \<Longrightarrow> good (next_seed s)"
proof -
  assume "good s"
  from next_seed_good[OF this] obtain r where r: "next_seed s = Fin r" "0 \<le> r" "r \<le> 233280 - 1 / 2 ^ 35"
    by auto
  have "r \<le> 233280" using r(3) by (smt (verit) divide_nonneg_nonneg zero_le_power)
  also have "(233280::real) \<le> 2 ^ 1000" by simp
  finally show ?thesis using good_bounded[OF r(2)] by (simp add: r(1))
qed

lemma good_next3: "good s \<Longrightarrow> good (next3 s)"
  by (simp add: next3_def good_next_seed)

lemma good_funpow: "good s \<Longrightarrow> good ((next3 ^^ k) s)"
  by (induction k) (simp_all add: good_next3)

section \<open>Seeds that are natural numbers\<close>


lemma rem_int:
  assumes "0 \<le> x"
  shows "real_of_int x - 233280 * of_int (trunc (of_int x / 233280)) = of_int (x mod 233280)"
proof -
  have fl: "\<lfloor>(of_int x :: real) / 233280\<rfloor> = x div 233280"
    by (metis floor_divide_of_int_eq of_int_numeral)
  have "(0::real) \<le> of_int x / 233280" using assms by simp
  then have "trunc (of_int x / 233280) = x div 233280"
    by (simp add: trunc_def fl)
  moreover have "real_of_int (x mod 233280) = of_int x - 233280 * of_int (x div 233280)"
    by (simp add: minus_div_mult_eq_mod[symmetric] mult.commute)
  ultimately show ?thesis by simp
qed

lemma to_double_int: "\<bar>m\<bar> < 2 ^ 53 \<Longrightarrow> to_double (of_int m) = Fin (of_int m)"
  by (rule to_double_exact[OF representable_int])

lemma next_seed_int:
  assumes "0 \<le> k" "k * 9301 + 49297 < 2 ^ 53"
  shows "next_seed (Fin (of_int k)) = Fin (of_int ((k * 9301 + 49297) mod 233280))"
proof -
  have a: "\<bar>k * 9301\<bar> < 2 ^ 53" "\<bar>k * 9301 + 49297\<bar> < 2 ^ 53" using assms by simp_all
  have "jmul (Fin (of_int k)) (Fin 9301) = to_double (of_int (k * 9301))" by simp
  also have "\<dots> = Fin (of_int (k * 9301))" by (rule to_double_int[OF a(1)])
  finally have m: "jmul (Fin (of_int k)) (Fin 9301) = Fin (of_int (k * 9301))" .
  have "jadd (Fin (of_int (k * 9301))) (Fin 49297) = to_double (of_int (k * 9301 + 49297))" by simp
  also have "\<dots> = Fin (of_int (k * 9301 + 49297))" by (rule to_double_int[OF a(2)])
  finally have s: "jadd (Fin (of_int (k * 9301))) (Fin 49297) = Fin (of_int (k * 9301 + 49297))" .
  have "0 \<le> k * 9301 + 49297" using assms(1) by simp
  from rem_int[OF this] show ?thesis
    unfolding next_seed_def m s by simp
qed

lemma exact_seed_int:
  "exact_seed s \<longleftrightarrow> (\<exists>k. s = Fin (of_int k) \<and> 0 \<le> k \<and> k * 9301 + 49297 < 2 ^ 53)"
proof
  assume "exact_seed s"
  then obtain r where r: "s = Fin r" "0 \<le> r" "r = of_int \<lfloor>r\<rfloor>" "r * 9301 + 49297 < 2 ^ 53"
    by (cases s) (auto simp: exact_seed_def)
  define k where "k = \<lfloor>r\<rfloor>"
  have rk: "r = of_int k" using r(3) by (simp add: k_def)
  have "0 \<le> k" using r(2) by (simp add: k_def)
  moreover have "real_of_int (k * 9301 + 49297) < of_int (2 ^ 53)" using r(4) by (simp add: rk)
  then have "k * 9301 + 49297 < 2 ^ 53" by (simp only: of_int_less_iff)
  ultimately show "\<exists>k. s = Fin (of_int k) \<and> 0 \<le> k \<and> k * 9301 + 49297 < 2 ^ 53"
    using r(1) rk by blast
next
  assume "\<exists>k. s = Fin (of_int k) \<and> 0 \<le> k \<and> k * 9301 + 49297 < 2 ^ 53"
  then obtain k where k: "s = Fin (of_int k)" "0 \<le> k" "k * 9301 + 49297 < 2 ^ 53" by blast
  from k(3) have "real_of_int (k * 9301 + 49297) < of_int (2 ^ 53)" by (simp only: of_int_less_iff)
  then show "exact_seed s" using k(2) by (simp add: exact_seed_def k(1))
qed

lemma exact_seed_next:
  assumes "exact_seed s"
  shows "\<exists>k. next_seed s = Fin (of_int k) \<and> 0 \<le> k \<and> k \<le> 233279"
proof -
  from assms obtain k where k: "s = Fin (of_int k)" "0 \<le> k" "k * 9301 + 49297 < 2 ^ 53"
    by (auto simp: exact_seed_int)
  let ?n = "(k * 9301 + 49297) mod 233280"
  have "next_seed s = Fin (of_int ?n)" unfolding k(1) by (rule next_seed_int[OF k(2,3)])
  moreover have "0 \<le> ?n" "?n \<le> 233279" by simp_all
  ultimately show ?thesis by blast
qed

lemma exact_next_seed: "exact_seed s \<Longrightarrow> exact_seed (next_seed s)"
proof -
  assume "exact_seed s"
  from exact_seed_next[OF this] obtain k where k: "next_seed s = Fin (of_int k)" "0 \<le> k" "k \<le> 233279"
    by blast
  then have "k * 9301 + 49297 < 2 ^ 53" by simp
  with k show ?thesis by (auto simp: exact_seed_int)
qed

lemma exact_next3: "exact_seed s \<Longrightarrow> exact_seed (next3 s)"
  by (simp add: next3_def exact_next_seed)

lemma exact_funpow: "exact_seed s \<Longrightarrow> exact_seed ((next3 ^^ k) s)"
  by (induction k) (simp_all add: exact_next3)

lemma unit_of_exact:
  assumes "exact_seed s"
  shows "\<exists>t. unit_of (next_seed s) = Fin t \<and> 0 \<le> t \<and> t \<le> 1 - 1 / 2 ^ 18"
proof -
  from exact_seed_next[OF assms] obtain k where k: "next_seed s = Fin (of_int k)" "0 \<le> k" "k \<le> 233279"
    by blast
  have rep: "representable (1 - 1 / 2 ^ 18)"
    using representable_frac[of "2 ^ 18 - 1" 18] by (simp add: field_simps)
  have "real_of_int k \<le> 233279" using k(3) by linarith
  then have "real_of_int k / 233280 \<le> 233279 / 233280" by (simp add: divide_right_mono)
  also have "\<dots> \<le> 1 - 1 / 2 ^ 18" by simp
  finally have up: "real_of_int k / 233280 \<le> 1 - 1 / 2 ^ 18" .
  have lo: "0 \<le> real_of_int k / 233280" using k(2) by simp
  from to_double_between[OF representable_0 rep lo up] show ?thesis
    by (simp add: k(1) unit_of_Fin)
qed

lemma exact_seed_good: "exact_seed s \<Longrightarrow> good s"
proof -
  assume "exact_seed s"
  then obtain k where k: "s = Fin (of_int k)" "0 \<le> k" "k * 9301 + 49297 < 2 ^ 53"
    by (auto simp: exact_seed_int)
  have "real_of_int (k * 9301 + 49297) < of_int (2 ^ 53)" using k(3) by (simp only: of_int_less_iff)
  then have "real_of_int k \<le> 2 ^ 53" using k(2) by simp
  also have "(2::real) ^ 53 \<le> 2 ^ 1000" by (rule power_increasing) simp_all
  finally show ?thesis using good_bounded[of "of_int k"] k(2) by (simp add: k(1))
qed


section \<open>The nodes of a ring\<close>

lemma affine_range:
  assumes rep: "representable lo'" "representable hi'" "representable lo" "representable hi"
    and t: "a \<le> t" "t \<le> b" and c: "0 \<le> c"
    and p: "lo' \<le> a * c" "b * c \<le> hi'" and q: "lo \<le> lo' + d" "hi' + d \<le> hi"
  shows "\<exists>\<rho>. jadd (jmul (Fin t) (Fin c)) (Fin d) = Fin \<rho> \<and> lo \<le> \<rho> \<and> \<rho> \<le> hi"
proof -
  have "a * c \<le> t * c" "t * c \<le> b * c" using t c by (simp_all add: mult_right_mono)
  with p have "lo' \<le> t * c" "t * c \<le> hi'" by linarith+
  from to_double_between[OF rep(1,2) this] obtain y where
    y: "to_double (t * c) = Fin y" "lo' \<le> y" "y \<le> hi'" by blast
  from y(2,3) q have "lo \<le> y + d" "y + d \<le> hi" by linarith+
  from to_double_between[OF rep(3,4) this] obtain \<rho> where
    "to_double (y + d) = Fin \<rho>" "lo \<le> \<rho>" "\<rho> \<le> hi" by blast
  then show ?thesis by (simp add: y(1))
qed

lemma representable_half [simp]: "representable (1 / 2)"
  using representable_frac[of 1 1] by simp

lemma representable_3_2 [simp]: "representable (3 / 2)"
  using representable_frac[of 3 1] by simp

lemma central_R_range:
  assumes "0 \<le> t" "t \<le> 1"
  shows "\<exists>\<rho>. central_R (Fin t) = Fin \<rho> \<and> 1 / 2 \<le> \<rho> \<and> \<rho> \<le> 2"
  unfolding central_R_def
  by (rule affine_range[where lo' = 0 and hi' = "3 / 2" and a = 0 and b = 1, OF _ _ _ _ assms])
     simp_all

lemma middle_R_range:
  assumes "0 \<le> t" "t \<le> 1"
  shows "\<exists>\<rho>. middle_R (Fin t) = Fin \<rho> \<and> 3 \<le> \<rho> \<and> \<rho> \<le> 5"
  unfolding middle_R_def
  by (rule affine_range[where lo' = 0 and hi' = 2 and a = 0 and b = 1, OF _ _ _ _ assms])
     simp_all

lemma outer_R_range:
  assumes "0 \<le> t" "t \<le> 1"
  shows "\<exists>\<rho>. outer_R (Fin t) = Fin \<rho> \<and> 5 \<le> \<rho> \<and> \<rho> \<le> 9"
  unfolding outer_R_def
  by (rule affine_range[where lo' = 0 and hi' = 4 and a = 0 and b = 1, OF _ _ _ _ assms])
     simp_all

lemma central_R_below:
  assumes "0 \<le> t" "t \<le> 1 - 1 / 2 ^ 18"
  shows "\<exists>\<rho>. central_R (Fin t) = Fin \<rho> \<and> 1 / 2 \<le> \<rho> \<and> \<rho> \<le> 2 - 3 / 2 ^ 19"
proof -
  have r1: "representable (3 / 2 - 3 / 2 ^ 19)"
    using representable_frac[of "3 * 2 ^ 18 - 3" 19] by simp
  have r2: "representable (2 - 3 / 2 ^ 19)"
    using representable_frac[of "2 ^ 20 - 3" 19] by simp
  show ?thesis
    unfolding central_R_def
    by (rule affine_range[where lo' = 0 and hi' = "3 / 2 - 3 / 2 ^ 19" and a = 0
          and b = "1 - 1 / 2 ^ 18", OF _ r1 _ r2 assms])
       simp_all
qed

lemma middle_R_below:
  assumes "0 \<le> t" "t \<le> 1 - 1 / 2 ^ 18"
  shows "\<exists>\<rho>. middle_R (Fin t) = Fin \<rho> \<and> 3 \<le> \<rho> \<and> \<rho> \<le> 5 - 1 / 2 ^ 17"
proof -
  have r1: "representable (2 - 1 / 2 ^ 17)"
    using representable_frac[of "2 ^ 18 - 1" 17] by simp
  have r2: "representable (5 - 1 / 2 ^ 17)"
    using representable_frac[of "5 * 2 ^ 17 - 1" 17] by simp
  show ?thesis
    unfolding middle_R_def
    by (rule affine_range[where lo' = 0 and hi' = "2 - 1 / 2 ^ 17" and a = 0
          and b = "1 - 1 / 2 ^ 18", OF _ r1 _ r2 assms])
       simp_all
qed

lemma outer_R_below:
  assumes "0 \<le> t" "t \<le> 1 - 1 / 2 ^ 18"
  shows "\<exists>\<rho>. outer_R (Fin t) = Fin \<rho> \<and> 5 \<le> \<rho> \<and> \<rho> \<le> 9 - 1 / 2 ^ 16"
proof -
  have r1: "representable (4 - 1 / 2 ^ 16)"
    using representable_frac[of "2 ^ 18 - 1" 16] by simp
  have r2: "representable (9 - 1 / 2 ^ 16)"
    using representable_frac[of "9 * 2 ^ 16 - 1" 16] by simp
  show ?thesis
    unfolding outer_R_def
    by (rule affine_range[where lo' = 0 and hi' = "4 - 1 / 2 ^ 16" and a = 0
          and b = "1 - 1 / 2 ^ 18", OF _ r1 _ r2 assms])
       simp_all
qed

text \<open>The planar radius of a point near \<open>(\<rho> cos \<alpha>, \<rho> sin \<alpha>)\<close>.\<close>

lemma planar_close:
  assumes "0 \<le> \<rho>" "\<bar>x - \<rho> * cos \<alpha>\<bar> \<le> e" "\<bar>z - \<rho> * sin \<alpha>\<bar> \<le> e"
  shows "\<bar>sqrt (x\<^sup>2 + z\<^sup>2) - \<rho>\<bar> \<le> 2 * e"
proof -
  let ?p = "Complex x z" and ?q = "Complex (\<rho> * cos \<alpha>) (\<rho> * sin \<alpha>)"
  have "(\<rho> * cos \<alpha>)\<^sup>2 + (\<rho> * sin \<alpha>)\<^sup>2 = \<rho>\<^sup>2 * ((cos \<alpha>)\<^sup>2 + (sin \<alpha>)\<^sup>2)"
    by (simp only: power_mult_distrib distrib_left)
  also have "\<dots> = \<rho>\<^sup>2" by (simp only: sin_cos_squared_add2 mult.right_neutral)
  finally have "cmod ?q = \<rho>" using assms(1) by (simp add: cmod_def)
  moreover have "cmod ?p = sqrt (x\<^sup>2 + z\<^sup>2)" by (simp add: cmod_def)
  moreover have "\<bar>cmod ?p - cmod ?q\<bar> \<le> cmod (?p - ?q)" by (rule norm_triangle_ineq3)
  moreover have "cmod (?p - ?q) \<le> \<bar>Re (?p - ?q)\<bar> + \<bar>Im (?p - ?q)\<bar>" by (rule cmod_le)
  moreover have "\<bar>Re (?p - ?q)\<bar> + \<bar>Im (?p - ?q)\<bar> \<le> 2 * e" using assms(2,3) by simp
  ultimately show ?thesis by linarith
qed

lemma tiny: "(2::real) powi (- 1075) \<le> 1 / 2 ^ 60"
proof -
  have "(2::real) powi (- 1075) \<le> 2 powi (- 60)" by (rule pow2_mono) simp
  also have "\<dots> = 1 / 2 ^ 60" by (simp add: power_int_minus field_simps)
  finally show ?thesis .
qed

text \<open>A product of a rounded cosine or sine and a radius.\<close>

lemma scaled_trig:
  assumes c: "\<bar>c\<bar> \<le> 1" and \<rho>: "1 / 2 \<le> \<rho>" "\<rho> \<le> 16"
  shows "\<exists>v x. to_double c = Fin v \<and> jmul (Fin v) (Fin \<rho>) = Fin x \<and> \<bar>x - \<rho> * c\<bar> \<le> \<rho> / 2 ^ 51"
proof -
  from to_double_abs_le[OF representable_1 c] obtain v where
    v: "to_double c = Fin v" "\<bar>v\<bar> \<le> 1" by blast
  have ev: "\<bar>v - c\<bar> \<le> 1 / 2 ^ 53 + 1 / 2 ^ 60"
  proof -
    have "\<bar>v - c\<bar> \<le> \<bar>c\<bar> / 2 ^ 53 + 2 powi (- 1075)" by (rule to_double_err[OF v(1)])
    also have "\<dots> \<le> 1 / 2 ^ 53 + 1 / 2 ^ 60"
      using c tiny by (intro add_mono divide_right_mono) simp_all
    finally show ?thesis .
  qed
  have "\<bar>v * \<rho>\<bar> = \<bar>v\<bar> * \<rho>" using \<rho>(1) by (simp add: abs_mult)
  also have "\<dots> \<le> 1 * \<rho>" using v(2) \<rho>(1) by (intro mult_right_mono) simp_all
  finally have b: "\<bar>v * \<rho>\<bar> \<le> \<rho>" by simp
  with \<rho>(2) have "\<bar>v * \<rho>\<bar> \<le> 16" by linarith
  from to_double_abs_le[OF _ this] obtain x where
    x: "to_double (v * \<rho>) = Fin x" by auto
  have ex: "\<bar>x - v * \<rho>\<bar> \<le> \<rho> / 2 ^ 53 + 1 / 2 ^ 60"
  proof -
    have "\<bar>x - v * \<rho>\<bar> \<le> \<bar>v * \<rho>\<bar> / 2 ^ 53 + 2 powi (- 1075)" by (rule to_double_err[OF x])
    also have "\<dots> \<le> \<rho> / 2 ^ 53 + 1 / 2 ^ 60"
      using b tiny by (intro add_mono divide_right_mono) simp_all
    finally show ?thesis .
  qed
  have "v * \<rho> - \<rho> * c = \<rho> * (v - c)" by (simp add: algebra_simps)
  then have "\<bar>v * \<rho> - \<rho> * c\<bar> = \<bar>\<rho>\<bar> * \<bar>v - c\<bar>" by (simp only: abs_mult)
  also have "\<dots> = \<rho> * \<bar>v - c\<bar>" using \<rho>(1) by simp
  also have "\<dots> \<le> \<rho> * (1 / 2 ^ 53 + 1 / 2 ^ 60)"
    using ev \<rho>(1) by (intro mult_left_mono) simp_all
  finally have e2: "\<bar>v * \<rho> - \<rho> * c\<bar> \<le> \<rho> * (1 / 2 ^ 53 + 1 / 2 ^ 60)" .
  have "\<bar>x - \<rho> * c\<bar> \<le> \<bar>x - v * \<rho>\<bar> + \<bar>v * \<rho> - \<rho> * c\<bar>" by linarith
  also have "\<dots> \<le> (\<rho> / 2 ^ 53 + 1 / 2 ^ 60) + \<rho> * (1 / 2 ^ 53 + 1 / 2 ^ 60)"
    using ex e2 by linarith
  also have "\<dots> \<le> \<rho> / 2 ^ 51" using \<rho>(1) by (simp add: field_simps)
  finally have "\<bar>x - \<rho> * c\<bar> \<le> \<rho> / 2 ^ 51" .
  with v(1) x show ?thesis by auto
qed

lemma angle_finite:
  assumes "\<bar>t\<bar> \<le> 1"
  shows "\<exists>\<alpha>. jmul (jmul (Fin t) Math_PI) (Fin 2) = Fin \<alpha>"
proof -
  have "\<bar>t * (884279719003555 / 281474976710656)\<bar> = \<bar>t\<bar> * (884279719003555 / 281474976710656)"
    by (simp add: abs_mult)
  also have "\<dots> \<le> 1 * 4" using assms by (intro mult_mono) simp_all
  finally have "\<bar>t * (884279719003555 / 281474976710656)\<bar> \<le> 4" by simp
  from to_double_abs_le[OF _ this] obtain y where
    y: "to_double (t * (884279719003555 / 281474976710656)) = Fin y" "\<bar>y\<bar> \<le> 4" by auto
  then have "\<bar>y * 2\<bar> \<le> 8" by simp
  from to_double_abs_le[OF _ this] obtain \<alpha> where "to_double (y * 2) = Fin \<alpha>" by auto
  then show ?thesis unfolding Math_PI_def jmul.simps y(1) by blast
qed

lemma ring_node_radius:
  assumes u1: "unit_of (next_seed s) = Fin t" "\<bar>t\<bar> \<le> 1"
    and r: "R (unit_of (next_seed (next_seed s))) = Fin \<rho>" "1 / 2 \<le> \<rho>" "\<rho> \<le> 16"
  shows "\<exists>x z. position (ring_node R H s) = (Fin x, H (unit_of (next3 s)), Fin z) \<and>
           \<bar>sqrt (x\<^sup>2 + z\<^sup>2) - \<rho>\<bar> \<le> \<rho> / 2 ^ 50"
proof -
  from angle_finite[OF u1(2)] obtain \<alpha> where
    \<alpha>: "jmul (jmul (Fin t) Math_PI) (Fin 2) = Fin \<alpha>" by blast
  from scaled_trig[OF _ r(2,3), of "cos \<alpha>"] obtain v x where
    x: "to_double (cos \<alpha>) = Fin v" "jmul (Fin v) (Fin \<rho>) = Fin x" "\<bar>x - \<rho> * cos \<alpha>\<bar> \<le> \<rho> / 2 ^ 51"
    by auto
  from scaled_trig[OF _ r(2,3), of "sin \<alpha>"] obtain w z where
    z: "to_double (sin \<alpha>) = Fin w" "jmul (Fin w) (Fin \<rho>) = Fin z" "\<bar>z - \<rho> * sin \<alpha>\<bar> \<le> \<rho> / 2 ^ 51"
    by auto
  have "0 \<le> \<rho>" using r(2) by simp
  from planar_close[OF this x(3) z(3)] have "\<bar>sqrt (x\<^sup>2 + z\<^sup>2) - \<rho>\<bar> \<le> \<rho> / 2 ^ 50" by simp
  moreover have "position (ring_node R H s) = (Fin x, H (unit_of (next3 s)), Fin z)"
    using x(2) z(2) by (simp add: ring_node_def Let_def u1(1) \<alpha> r(1) x(1) z(1) next3_def)
  ultimately show ?thesis by blast
qed

lemma close_to_radius:
  assumes "position n = (Fin x, y, Fin z)" "\<bar>sqrt (x\<^sup>2 + z\<^sup>2) - \<rho>\<bar> \<le> \<rho> / 2 ^ 50"
    "lo \<le> \<rho>" "\<rho> \<le> hi" "0 \<le> lo"
  shows "close_to lo hi (planar_radius n)"
proof -
  have e: "\<rho> * (1 - 1 / 2 ^ 50) = \<rho> - \<rho> / 2 ^ 50" "\<rho> * (1 + 1 / 2 ^ 50) = \<rho> + \<rho> / 2 ^ 50"
    by (simp_all add: algebra_simps)
  have "\<rho> - \<rho> / 2 ^ 50 \<le> sqrt (x\<^sup>2 + z\<^sup>2)" "sqrt (x\<^sup>2 + z\<^sup>2) \<le> \<rho> + \<rho> / 2 ^ 50"
    using assms(2) by linarith+
  then have "\<rho> * (1 - 1 / 2 ^ 50) \<le> sqrt (x\<^sup>2 + z\<^sup>2)" "sqrt (x\<^sup>2 + z\<^sup>2) \<le> \<rho> * (1 + 1 / 2 ^ 50)"
    unfolding e .
  moreover have "lo * (1 - 1 / 2 ^ 50) \<le> \<rho> * (1 - 1 / 2 ^ 50)"
    using assms(3) by (intro mult_right_mono) simp_all
  moreover have "\<rho> * (1 + 1 / 2 ^ 50) \<le> hi * (1 + 1 / 2 ^ 50)"
    using assms(4) by (intro mult_right_mono) simp_all
  ultimately have "lo * (1 - 1 / 2 ^ 50) \<le> sqrt (x\<^sup>2 + z\<^sup>2)" "sqrt (x\<^sup>2 + z\<^sup>2) \<le> hi * (1 + 1 / 2 ^ 50)"
    by linarith+
  then show ?thesis
    by (auto simp: close_to_def planar_radius_def assms(1) le_def)
qed

lemma below_radius:
  assumes "position n = (Fin x, y, Fin z)" "\<bar>sqrt (x\<^sup>2 + z\<^sup>2) - \<rho>\<bar> \<le> \<rho> / 2 ^ 50"
    "0 \<le> \<rho>" "\<rho> \<le> hi - 1 / 2 ^ 19" "hi \<le> 16"
  shows "lt (planar_radius n) (Fin hi)"
proof -
  have "sqrt (x\<^sup>2 + z\<^sup>2) \<le> \<rho> + \<rho> / 2 ^ 50" using assms(2) by linarith
  moreover have "\<rho> / 2 ^ 50 \<le> 16 / 2 ^ 50" using assms(4,5) by (intro divide_right_mono) simp_all
  ultimately have "sqrt (x\<^sup>2 + z\<^sup>2) < hi" using assms(4) by simp
  then show ?thesis by (simp add: planar_radius_def assms(1))
qed

lemma ring_nodes_all:
  assumes "P s" "\<And>s. P s \<Longrightarrow> P (next3 s)" "\<And>s. P s \<Longrightarrow> Q (ring_node R H s)"
  shows "\<forall>n \<in> set (ring_nodes R H k s). Q n"
  using assms(1)
proof (induction k arbitrary: s)
  case 0
  show ?case by simp
next
  case (Suc k)
  from Suc.IH[OF assms(2)[OF Suc.prems]] assms(3)[OF Suc.prems] show ?case by simp
qed

lemma ring_node_close:
  assumes g: "good s"
    and R: "\<And>t. 0 \<le> t \<Longrightarrow> t \<le> 1 \<Longrightarrow> \<exists>\<rho>. R (Fin t) = Fin \<rho> \<and> lo \<le> \<rho> \<and> \<rho> \<le> hi"
    and b: "1 / 2 \<le> lo" "hi \<le> 16"
  shows "close_to lo hi (planar_radius (ring_node R H s))"
proof -
  from unit_of_good[OF g] obtain t where t: "unit_of (next_seed s) = Fin t" "\<bar>t\<bar> \<le> 1"
    by (smt (verit) divide_nonneg_nonneg zero_le_power)
  from unit_of_good[OF good_next_seed[OF g]] obtain t2 where
    t2: "unit_of (next_seed (next_seed s)) = Fin t2" "0 \<le> t2" "t2 \<le> 1"
    by (smt (verit) divide_nonneg_nonneg zero_le_power)
  from R[OF t2(2,3)] obtain \<rho> where \<rho>: "R (Fin t2) = Fin \<rho>" "lo \<le> \<rho>" "\<rho> \<le> hi" by blast
  have r: "R (unit_of (next_seed (next_seed s))) = Fin \<rho>" by (simp add: t2(1) \<rho>(1))
  have "1 / 2 \<le> \<rho>" "\<rho> \<le> 16" using \<rho>(2,3) b by linarith+
  from ring_node_radius[where R = R and H = H, OF t r this] obtain x z where
    "position (ring_node R H s) = (Fin x, H (unit_of (next3 s)), Fin z)"
    "\<bar>sqrt (x\<^sup>2 + z\<^sup>2) - \<rho>\<bar> \<le> \<rho> / 2 ^ 50"
    by blast
  from close_to_radius[OF this \<rho>(2,3)] b(1) show ?thesis by simp
qed

lemma ring_node_below:
  assumes e: "exact_seed s"
    and R: "\<And>t. 0 \<le> t \<Longrightarrow> t \<le> 1 - 1 / 2 ^ 18 \<Longrightarrow>
              \<exists>\<rho>. R (Fin t) = Fin \<rho> \<and> 1 / 2 \<le> \<rho> \<and> \<rho> \<le> hi - 1 / 2 ^ 19"
    and b: "hi \<le> 16"
  shows "lt (planar_radius (ring_node R H s)) (Fin hi)"
proof -
  from unit_of_exact[OF e] obtain t where t: "unit_of (next_seed s) = Fin t" "\<bar>t\<bar> \<le> 1"
    by (smt (verit) divide_nonneg_nonneg zero_le_power)
  from unit_of_exact[OF exact_next_seed[OF e]] obtain t2 where
    t2: "unit_of (next_seed (next_seed s)) = Fin t2" "0 \<le> t2" "t2 \<le> 1 - 1 / 2 ^ 18"
    by blast
  from R[OF t2(2,3)] obtain \<rho> where
    \<rho>: "R (Fin t2) = Fin \<rho>" "1 / 2 \<le> \<rho>" "\<rho> \<le> hi - 1 / 2 ^ 19" by blast
  have r: "R (unit_of (next_seed (next_seed s))) = Fin \<rho>" by (simp add: t2(1) \<rho>(1))
  have "\<rho> \<le> 16" using \<rho>(3) b by (smt (verit) divide_nonneg_nonneg zero_le_power)
  from ring_node_radius[where R = R and H = H, OF t r \<rho>(2) this] obtain x z where
    p: "position (ring_node R H s) = (Fin x, H (unit_of (next3 s)), Fin z)"
    "\<bar>sqrt (x\<^sup>2 + z\<^sup>2) - \<rho>\<bar> \<le> \<rho> / 2 ^ 50"
    by blast
  have "0 \<le> \<rho>" using \<rho>(2) by simp
  from below_radius[OF p this \<rho>(3) b] show ?thesis .
qed


section \<open>The run as a whole\<close>

lemma run_eq: "finite_counts cfg \<Longrightarrow> run cfg seed = Some (selectEdges cfg (populated cfg seed))"
  by (simp add: run_def populate_eq)

lemma run_None: "\<not> finite_counts cfg \<Longrightarrow> run cfg seed = None"
  by (simp add: run_def populate_None)

lemma generateMindMap_run:
  "run cfg seed = Some g \<Longrightarrow>
   generateMindMap cfg seed = Some \<lparr>nodes = nodes g, connections = connections g\<rparr>"
  by (simp add: generateMindMap_def mindmap.truncate_def)

lemma subseq_subset: "subseq xs ys \<Longrightarrow> set xs \<subseteq> set ys"
  by (induction rule: list_emb.induct) auto

lemma subseq_distinct: "subseq xs ys \<Longrightarrow> distinct ys \<Longrightarrow> distinct xs"
  by (induction rule: list_emb.induct) (auto dest: subseq_subset)

lemma nodes_selectEdges [simp]: "nodes (selectEdges cfg g) = nodes g"
proof -
  have "nodes (fold (visit_at cfg ns) ps g) = nodes g" for ns ps
    by (induction ps arbitrary: g) (auto simp: visit_at_def)
  then show ?thesis by (simp add: selectEdges_visited_pairs)
qed

lemma selectEdges_pushed:
  assumes "pushed g = []"
  shows "subseq (pushed (selectEdges cfg g)) (visited_pairs (length (nodes g)))"
  using fold_pushed[OF visited_pairs_distinct, of cfg "nodes g" "length (nodes g)" g] assms
  by (simp add: selectEdges_visited_pairs)

lemma selectEdges_connections:
  assumes "pushed g = []" "connections g = []"
  shows "connections (selectEdges cfg g) =
         map (\<lambda>(i, j). edge_of cfg (nodes g ! i) (nodes g ! j)) (pushed (selectEdges cfg g))"
  using fold_connections[of cfg "nodes g" g "visited_pairs (length (nodes g))"] assms
  by (simp add: selectEdges_visited_pairs)

lemma selectEdges_divisions:
  assumes "pushed g = []" "divisions g = []"
  shows "divisions (selectEdges cfg g) =
         map (\<lambda>(i, j). (distance (position (nodes g ! i)) (position (nodes g ! j)),
                         connectionDistance cfg)) (pushed (selectEdges cfg g))"
  using fold_divisions[of "nodes g" cfg g "visited_pairs (length (nodes g))"] assms
  by (simp add: selectEdges_visited_pairs)

lemma selectEdges_near:
  assumes "pushed g = []"
  shows "\<forall>(i, j) \<in> set (pushed (selectEdges cfg g)). near cfg (nodes g ! i) (nodes g ! j)"
  using fold_near[of g cfg "nodes g" "visited_pairs (length (nodes g))"] assms
  by (simp add: selectEdges_visited_pairs)

lemma populated_simps [simp]:
  "pushed (populated cfg seed) = []" "connections (populated cfg seed) = []"
  "divisions (populated cfg seed) = []"
  "nodes (populated cfg seed) = central_ring cfg seed @ middle_ring cfg seed @ outer_ring cfg seed"
  by (simp_all add: populated_def)

lemma connection_cases:
  assumes "c \<in> set (connections (selectEdges cfg (populated cfg seed)))"
  shows "\<exists>n m. c = edge_of cfg n m \<and> near cfg n m"
proof -
  let ?p = "populated cfg seed" and ?q = "selectEdges cfg (populated cfg seed)"
  from assms obtain i j where ij: "(i, j) \<in> set (pushed ?q)"
    and c: "c = edge_of cfg (nodes ?p ! i) (nodes ?p ! j)"
    by (subst (asm) selectEdges_connections) auto
  from selectEdges_near[of ?p cfg] ij have "near cfg (nodes ?p ! i) (nodes ?p ! j)"
    by auto
  with c show ?thesis by blast
qed

lemma generateMindMap_eq:
  "finite_counts cfg \<Longrightarrow>
   generateMindMap cfg seed =
     Some \<lparr>nodes = nodes (populated cfg seed),
           connections = connections (selectEdges cfg (populated cfg seed))\<rparr>"
  by (simp add: generateMindMap_run run_eq del: populated_simps)

lemma lit_0_2: "to_double (1 / 5) = Fin (3602879701896397 / 18014398509481984)"
proof -
  have r: "round_half_even (1 / 5 * 2 ^ 55) = 7205759403792794"
    by (simp add: round_half_even_def Let_def)
  have "rounded (1 / 5) = of_int (round_half_even (1 / 5 * 2 ^ 55)) / 2 ^ 55"
    by (rule rounded_eval_down) simp_all
  then have "rounded (1 / 5) = 3602879701896397 / 18014398509481984"
    unfolding r by simp
  then show ?thesis by (simp add: to_double_def Let_def)
qed

lemma opacity_bounds:
  assumes "lt (Fin r) cd" "0 \<le> r"
  shows "\<exists>v. Math_max (to_double (1 / 5)) (jsub (Fin 1) (jdiv (Fin r) cd)) = Fin v \<and>
             le (to_double (1 / 5)) (Fin v) \<and> 1 / 5 \<le> v \<and> v \<le> 1 \<and> (r = 0 \<longrightarrow> v = 1)"
proof -
  have "\<exists>w. jsub (Fin 1) (jdiv (Fin r) cd) = Fin w \<and> 0 \<le> w \<and> w \<le> 1 \<and> (r = 0 \<longrightarrow> w = 1)"
  proof (cases cd)
    case (Fin c)
    with assms have c: "r < c" "0 < c" by auto
    then have "0 \<le> r / c" "r / c \<le> 1" using assms(2) by auto
    from to_double_between[OF representable_0 representable_1 this] obtain q where
      q: "to_double (r / c) = Fin q" "0 \<le> q" "q \<le> 1" by blast
    from q(2,3) have "0 \<le> 1 - q" "1 - q \<le> 1" by linarith+
    from to_double_between[OF representable_0 representable_1 this] obtain w where
      w: "to_double (1 - q) = Fin w" "0 \<le> w" "w \<le> 1" by blast
    have e: "jsub (Fin 1) (jdiv (Fin r) cd) = Fin w"
      using c(2) by (simp add: Fin jsub_def q(1) w(1))
    have "w = 1" if "r = 0"
    proof -
      from that q(1) have "q = 0" by (simp add: to_double_exact)
      with w(1) show ?thesis by (simp add: to_double_exact)
    qed
    with e w(2,3) show ?thesis by blast
  next
    case PInf
    then show ?thesis by (simp add: jsub_def to_double_exact)
  qed (use assms in auto)
  then obtain w where w: "jsub (Fin 1) (jdiv (Fin r) cd) = Fin w" "0 \<le> w" "w \<le> 1"
    "r = 0 \<longrightarrow> w = 1" by blast
  let ?l = "3602879701896397 / 18014398509481984 :: real"
  have "Math_max (to_double (1 / 5)) (Fin w) = Fin (max ?l w)"
    by (simp add: lit_0_2 Math_max_def max_def)
  moreover have "le (to_double (1 / 5)) (Fin (max ?l w))"
  proof -
    have "?l < max ?l w \<or> ?l = max ?l w" by (simp add: max_def) linarith
    then show ?thesis unfolding lit_0_2 le_def by auto
  qed
  moreover have "1 / 5 \<le> max ?l w" by simp
  moreover have "max ?l w \<le> 1" using w(3) by simp
  moreover have "r = 0 \<longrightarrow> max ?l w = 1" using w(4) by simp
  ultimately show ?thesis unfolding w(1) by blast
qed

lemma edge_opacity:
  assumes "near cfg n m"
  shows "\<exists>v. opacity (edge_of cfg n m) = Fin v \<and> le (to_double (1 / 5)) (Fin v) \<and>
             1 / 5 \<le> v \<and> v \<le> 1 \<and> (distance (position n) (position m) = Fin 0 \<longrightarrow> v = 1)"
proof -
  from assms have lt: "lt (distance (position n) (position m)) (connectionDistance cfg)"
    by (simp add: near_def)
  from lt_distance[OF lt] obtain r where r: "distance (position n) (position m) = Fin r" "0 \<le> r"
    by auto
  from opacity_bounds[of r "connectionDistance cfg"] lt r show ?thesis
    by (auto simp: edge_of_def opacity_of_def)
qed



lemma pushed_nil_if_not_near:
  assumes "pushed g = []"
    and "\<And>i j. i < j \<Longrightarrow> j < length (nodes g) \<Longrightarrow> \<not> near cfg (nodes g ! i) (nodes g ! j)"
  shows "pushed (selectEdges cfg g) = []"
proof (rule ccontr)
  assume "pushed (selectEdges cfg g) \<noteq> []"
  then obtain i j where ij: "(i, j) \<in> set (pushed (selectEdges cfg g))"
    by (cases "pushed (selectEdges cfg g)") auto
  from subseq_subset[OF selectEdges_pushed[OF assms(1), of cfg]] ij
  have "i < j \<and> j < length (nodes g)" by (auto simp: visited_pairs_set)
  moreover from selectEdges_near[OF assms(1), of cfg] ij
  have "near cfg (nodes g ! i) (nodes g ! j)" by auto
  ultimately show False using assms(2) by blast
qed

lemma distinct_unordered:
  assumes "distinct ps" "\<forall>(i, j) \<in> set ps. i < (j::nat)"
  shows "distinct (map (\<lambda>(i, j). {i, j}) ps)"
proof -
  have "inj_on (\<lambda>(i, j). {i, j}) (set ps)"
  proof (rule inj_onI)
    fix x y assume x: "x \<in> set ps" and y: "y \<in> set ps"
      and e: "(case x of (i, j) \<Rightarrow> {i, j}) = (case y of (i, j) \<Rightarrow> {i, j})"
    obtain i j where xi: "x = (i, j)" by (cases x)
    obtain i' j' where yi: "y = (i', j')" by (cases y)
    from assms(2) x y have "i < j" "i' < j'" by (auto simp: xi yi)
    moreover from e have "{i, j} = {i', j'}" by (simp add: xi yi)
    ultimately have "i = i' \<and> j = j'" by (auto simp: doubleton_eq_iff)
    then show "x = y" by (simp add: xi yi)
  qed
  with assms(1) show ?thesis by (simp add: distinct_map)
qed


section \<open>Degenerate inputs\<close>

lemma ring_size_nonpositive: "le count (Fin 0) \<Longrightarrow> count \<noteq> PInf \<and> ring_size count = 0"
  by (cases count) (auto simp: le_def ring_size_def)

lemma selectEdges_no_nodes: "nodes g = [] \<Longrightarrow> selectEdges cfg g = g"
  by (simp add: selectEdges_visited_pairs visited_pairs_def all_pairs_def)

lemma special_next: "special s \<Longrightarrow> next_seed s = NaN"
  by (auto simp: special_def next_seed_def signed_inf_def)

lemma special_next3: "special s \<Longrightarrow> next3 s = NaN"
  by (simp add: next3_def special_next special_def)

lemma ring_node_special:
  assumes "special s" "H NaN = NaN"
  shows "position (ring_node R H s) = (NaN, NaN, NaN)"
  using assms
  by (simp add: ring_node_def Let_def special_next special_def)

lemma ring_nodes_special:
  assumes "special s" "H NaN = NaN"
  shows "\<forall>n \<in> set (ring_nodes R H k s). position n = (NaN, NaN, NaN)"
  using assms(1)
proof (induction k arbitrary: s)
  case 0
  then show ?case by simp
next
  case (Suc k)
  have "special (next3 s)" using Suc.prems by (simp add: special_next3 special_def)
  from Suc.IH[OF this] ring_node_special[where H = H and R = R, OF Suc.prems assms(2)] show ?case by simp
qed

lemma special_funpow: "special s \<Longrightarrow> special ((next3 ^^ k) s)"
  by (induction k) (simp_all add: special_next3 special_def)

lemma H_NaN: "inner_H NaN = NaN" "outer_H NaN = NaN"
  by (simp_all add: inner_H_def outer_H_def jsub_def)

lemma populated_special:
  assumes "special seed"
  shows "\<forall>n \<in> set (nodes (populated cfg seed)). position n = (NaN, NaN, NaN)"
  using ring_nodes_special[where H = inner_H and R = central_R, OF assms H_NaN(1)]
    ring_nodes_special[where H = inner_H and R = middle_R, OF special_funpow[OF assms] H_NaN(1)]
    ring_nodes_special[where H = outer_H and R = outer_R,
      OF special_funpow[OF special_funpow[OF assms]] H_NaN(2)]
  by (auto simp: central_ring_def middle_ring_def outer_ring_def)

lemma length_ring_nodes [simp]: "length (ring_nodes R H k s) = k"
  by (induction k arbitrary: s) simp_all

lemma length_populated:
  "length (nodes (populated cfg seed)) =
     ring_size (centralNodes cfg) + ring_size (middleNodes cfg) + ring_size (outerNodes cfg)"
  by (simp add: central_ring_def middle_ring_def outer_ring_def)


section \<open>Distances between ring nodes\<close>

lemma inner_H_range:
  assumes "0 \<le> t" "t \<le> 1"
  shows "\<exists>h. inner_H (Fin t) = Fin h \<and> \<bar>h\<bar> \<le> 1"
proof -
  have "\<bar>t - 1 / 2\<bar> \<le> 1 / 2" using assms by linarith
  from to_double_abs_le[OF _ this] obtain y where
    y: "to_double (t - 1 / 2) = Fin y" "\<bar>y\<bar> \<le> 1 / 2" by auto
  then have "\<bar>y * 2\<bar> \<le> 1" by simp
  from to_double_abs_le[OF _ this] obtain h where "to_double (y * 2) = Fin h" "\<bar>h\<bar> \<le> 1" by auto
  then show ?thesis by (simp add: inner_H_def jsub_def y(1))
qed

lemma outer_H_range:
  assumes "0 \<le> t" "t \<le> 1"
  shows "\<exists>h. outer_H (Fin t) = Fin h \<and> \<bar>h\<bar> \<le> 3"
proof -
  have "\<bar>t - 1 / 2\<bar> \<le> 1 / 2" using assms by linarith
  from to_double_abs_le[OF _ this] obtain y where
    y: "to_double (t - 1 / 2) = Fin y" "\<bar>y\<bar> \<le> 1 / 2" by auto
  then have "\<bar>y * 6\<bar> \<le> 3" by simp
  from to_double_abs_le[OF _ this] obtain h where "to_double (y * 6) = Fin h" "\<bar>h\<bar> \<le> 3" by auto
  then show ?thesis by (simp add: outer_H_def jsub_def y(1))
qed

text \<open>One rounding of a value below 4096 in magnitude.\<close>

lemma to_double_near:
  assumes "\<bar>x\<bar> \<le> 4096"
  shows "\<exists>y. to_double x = Fin y \<and> \<bar>y\<bar> \<le> 4096 \<and> \<bar>y - x\<bar> \<le> 1 / 2 ^ 40"
proof -
  from to_double_abs_le[OF _ assms] obtain y where y: "to_double x = Fin y" "\<bar>y\<bar> \<le> 4096"
    by auto
  have "\<bar>y - x\<bar> \<le> \<bar>x\<bar> / 2 ^ 53 + 2 powi (- 1075)" by (rule to_double_err[OF y(1)])
  also have "\<dots> \<le> 4096 / 2 ^ 53 + 1 / 2 ^ 60"
    using assms tiny by (intro add_mono divide_right_mono) simp_all
  also have "\<dots> \<le> 1 / 2 ^ 40" by simp
  finally show ?thesis using y by blast
qed

lemma sq_diff:
  assumes "\<bar>a\<bar> \<le> 10" "\<bar>b\<bar> \<le> 10"
  shows "\<exists>q. Math_pow (jsub (Fin a) (Fin b)) 2 = Fin q \<and> 0 \<le> q \<and> q \<le> 1024 \<and>
             \<bar>q - (a - b)\<^sup>2\<bar> \<le> 1 / 2 ^ 34"
proof -
  have ab: "\<bar>a - b\<bar> \<le> 20" using assms by linarith
  then have "\<bar>a - b\<bar> \<le> 4096" by linarith
  from to_double_near[OF this] obtain D where
    D: "to_double (a - b) = Fin D" "\<bar>D - (a - b)\<bar> \<le> 1 / 2 ^ 40" by blast
  have D21: "\<bar>D\<bar> \<le> 21"
  proof -
    have "\<bar>D\<bar> \<le> \<bar>a - b\<bar> + \<bar>D - (a - b)\<bar>" by linarith
    also have "\<dots> \<le> 20 + 1 / 2 ^ 40" using ab D(2) by linarith
    also have "\<dots> \<le> 21" by simp
    finally show ?thesis .
  qed
  have "D\<^sup>2 = \<bar>D\<bar>\<^sup>2" by simp
  also have "\<dots> \<le> 21\<^sup>2" using D21 by (intro power_mono) simp_all
  finally have D2: "0 \<le> D\<^sup>2" "D\<^sup>2 \<le> 1024" by simp_all
  from to_double_between[OF _ _ D2] obtain q where
    q: "to_double (D\<^sup>2) = Fin q" "0 \<le> q" "q \<le> 1024" by auto
  have "\<bar>D\<^sup>2\<bar> \<le> 4096" using D2 by simp
  from to_double_near[OF this] q(1) have e1: "\<bar>q - D\<^sup>2\<bar> \<le> 1 / 2 ^ 40" by auto
  have "D\<^sup>2 - (a - b)\<^sup>2 = (D - (a - b)) * (D + (a - b))"
    by (simp add: power2_eq_square algebra_simps)
  then have "\<bar>D\<^sup>2 - (a - b)\<^sup>2\<bar> = \<bar>D - (a - b)\<bar> * \<bar>D + (a - b)\<bar>" by (simp only: abs_mult)
  also have "\<dots> \<le> 1 / 2 ^ 40 * 41"
  proof -
    have "\<bar>D + (a - b)\<bar> \<le> 41" using D21 ab by linarith
    with D(2) show ?thesis by (intro mult_mono) simp_all
  qed
  finally have e2: "\<bar>D\<^sup>2 - (a - b)\<^sup>2\<bar> \<le> 41 / 2 ^ 40" by simp
  have "\<bar>q - (a - b)\<^sup>2\<bar> \<le> \<bar>q - D\<^sup>2\<bar> + \<bar>D\<^sup>2 - (a - b)\<^sup>2\<bar>" by linarith
  also have "\<dots> \<le> 1 / 2 ^ 40 + 41 / 2 ^ 40" using e1 e2 by linarith
  also have "\<dots> \<le> 1 / 2 ^ 34" by simp
  finally have "\<bar>q - (a - b)\<^sup>2\<bar> \<le> 1 / 2 ^ 34" .
  moreover have "Math_pow (jsub (Fin a) (Fin b)) 2 = Fin q"
    by (simp add: jsub_def D(1) q(1))
  ultimately show ?thesis using q(2,3) by blast
qed

lemma sum_squares:
  assumes "\<bar>x1\<bar> \<le> 10" "\<bar>x2\<bar> \<le> 10" "\<bar>y1\<bar> \<le> 10" "\<bar>y2\<bar> \<le> 10" "\<bar>z1\<bar> \<le> 10" "\<bar>z2\<bar> \<le> 10"
  shows "\<exists>S. jadd (jadd (Math_pow (jsub (Fin x1) (Fin x2)) 2) (Math_pow (jsub (Fin y1) (Fin y2)) 2))
                  (Math_pow (jsub (Fin z1) (Fin z2)) 2) = Fin S \<and> 0 \<le> S \<and> S \<le> 4096 \<and>
             \<bar>S - ((x1 - x2)\<^sup>2 + (y1 - y2)\<^sup>2 + (z1 - z2)\<^sup>2)\<bar> \<le> 1 / 2 ^ 30"
proof -
  from sq_diff[OF assms(1,2)] obtain p where
    p: "Math_pow (jsub (Fin x1) (Fin x2)) 2 = Fin p" "0 \<le> p" "p \<le> 1024"
    "\<bar>p - (x1 - x2)\<^sup>2\<bar> \<le> 1 / 2 ^ 34" by blast
  from sq_diff[OF assms(3,4)] obtain q where
    q: "Math_pow (jsub (Fin y1) (Fin y2)) 2 = Fin q" "0 \<le> q" "q \<le> 1024"
    "\<bar>q - (y1 - y2)\<^sup>2\<bar> \<le> 1 / 2 ^ 34" by blast
  from sq_diff[OF assms(5,6)] obtain r where
    r: "Math_pow (jsub (Fin z1) (Fin z2)) 2 = Fin r" "0 \<le> r" "r \<le> 1024"
    "\<bar>r - (z1 - z2)\<^sup>2\<bar> \<le> 1 / 2 ^ 34" by blast
  have pq: "0 \<le> p + q" "p + q \<le> 2048" using p(2,3) q(2,3) by linarith+
  from to_double_between[OF _ _ pq] obtain T where
    T: "to_double (p + q) = Fin T" "0 \<le> T" "T \<le> 2048" by auto
  have "\<bar>p + q\<bar> \<le> 4096" using pq by simp
  from to_double_near[OF this] T(1) have eT: "\<bar>T - (p + q)\<bar> \<le> 1 / 2 ^ 40" by auto
  have Tr: "0 \<le> T + r" "T + r \<le> 4096" using T(2,3) r(2,3) by linarith+
  from to_double_between[OF _ _ Tr] obtain S where
    S: "to_double (T + r) = Fin S" "0 \<le> S" "S \<le> 4096" by auto
  have "\<bar>T + r\<bar> \<le> 4096" using Tr by simp
  from to_double_near[OF this] S(1) have eS: "\<bar>S - (T + r)\<bar> \<le> 1 / 2 ^ 40" by auto
  have "\<bar>S - ((x1 - x2)\<^sup>2 + (y1 - y2)\<^sup>2 + (z1 - z2)\<^sup>2)\<bar>
        \<le> 1 / 2 ^ 40 + 1 / 2 ^ 40 + 1 / 2 ^ 34 + 1 / 2 ^ 34 + 1 / 2 ^ 34"
    using eS eT p(4) q(4) r(4) by linarith
  also have "\<dots> \<le> 1 / 2 ^ 30" by simp
  finally have "\<bar>S - ((x1 - x2)\<^sup>2 + (y1 - y2)\<^sup>2 + (z1 - z2)\<^sup>2)\<bar> \<le> 1 / 2 ^ 30" .
  moreover have "jadd (jadd (Math_pow (jsub (Fin x1) (Fin x2)) 2) (Math_pow (jsub (Fin y1) (Fin y2)) 2))
                  (Math_pow (jsub (Fin z1) (Fin z2)) 2) = Fin S"
    by (simp only: p(1) q(1) r(1) jadd.simps T(1) S(1))
  ultimately show ?thesis using S(2,3) by blast
qed

lemma planar_triangle:
  fixes x1 z1 x2 z2 :: real
  shows "(x1 - x2)\<^sup>2 + (z1 - z2)\<^sup>2 \<le> (sqrt (x1\<^sup>2 + z1\<^sup>2) + sqrt (x2\<^sup>2 + z2\<^sup>2))\<^sup>2"
    and "(sqrt (x2\<^sup>2 + z2\<^sup>2) - sqrt (x1\<^sup>2 + z1\<^sup>2))\<^sup>2 \<le> (x1 - x2)\<^sup>2 + (z1 - z2)\<^sup>2"
proof -
  let ?p = "Complex x1 z1" and ?q = "Complex x2 z2"
  have n: "cmod ?p = sqrt (x1\<^sup>2 + z1\<^sup>2)" "cmod ?q = sqrt (x2\<^sup>2 + z2\<^sup>2)"
    by (simp_all add: cmod_def)
  have d: "(cmod (?p - ?q))\<^sup>2 = (x1 - x2)\<^sup>2 + (z1 - z2)\<^sup>2"
    by (simp add: cmod_power2)
  have "cmod (?p - ?q) \<le> cmod ?p + cmod ?q" by (rule norm_triangle_ineq4)
  then have "(cmod (?p - ?q))\<^sup>2 \<le> (cmod ?p + cmod ?q)\<^sup>2" by (intro power_mono) simp_all
  then show "(x1 - x2)\<^sup>2 + (z1 - z2)\<^sup>2 \<le> (sqrt (x1\<^sup>2 + z1\<^sup>2) + sqrt (x2\<^sup>2 + z2\<^sup>2))\<^sup>2"
    unfolding d n .
  have "\<bar>cmod ?p - cmod ?q\<bar> \<le> cmod (?p - ?q)" by (rule norm_triangle_ineq3)
  then have "\<bar>cmod ?p - cmod ?q\<bar>\<^sup>2 \<le> (cmod (?p - ?q))\<^sup>2" by (intro power_mono) simp_all
  then have "(cmod ?q - cmod ?p)\<^sup>2 \<le> (cmod (?p - ?q))\<^sup>2"
    by (simp add: power2_commute)
  then show "(sqrt (x2\<^sup>2 + z2\<^sup>2) - sqrt (x1\<^sup>2 + z1\<^sup>2))\<^sup>2 \<le> (x1 - x2)\<^sup>2 + (z1 - z2)\<^sup>2"
    unfolding d n .
qed

lemma coordinate_le_radius:
  fixes x z :: real
  shows "\<bar>x\<bar> \<le> sqrt (x\<^sup>2 + z\<^sup>2)" "\<bar>z\<bar> \<le> sqrt (x\<^sup>2 + z\<^sup>2)"
proof -
  have "sqrt (x\<^sup>2) \<le> sqrt (x\<^sup>2 + z\<^sup>2)" "sqrt (z\<^sup>2) \<le> sqrt (x\<^sup>2 + z\<^sup>2)"
    by (simp_all del: real_sqrt_abs)
  then show "\<bar>x\<bar> \<le> sqrt (x\<^sup>2 + z\<^sup>2)" "\<bar>z\<bar> \<le> sqrt (x\<^sup>2 + z\<^sup>2)" by simp_all
qed

text \<open>Two nodes whose planar radii and heights are small have a small distance.\<close>

lemma distance_below:
  assumes n: "position n = (Fin x1, Fin h1, Fin z1)" and m: "position m = (Fin x2, Fin h2, Fin z2)"
    and r: "sqrt (x1\<^sup>2 + z1\<^sup>2) \<le> a" "sqrt (x2\<^sup>2 + z2\<^sup>2) \<le> b" "a \<le> 10" "b \<le> 10"
    and h: "\<bar>h1\<bar> \<le> c" "\<bar>h2\<bar> \<le> c" "c \<le> 5"
    and B: "representable B" "0 \<le> B" "B \<le> 64" "(a + b)\<^sup>2 + (2 * c)\<^sup>2 + 1 / 2 ^ 30 \<le> B\<^sup>2"
  shows "\<exists>d. distance (position n) (position m) = Fin d \<and> 0 \<le> d \<and> d \<le> B"
proof -
  have c: "\<bar>x1\<bar> \<le> 10" "\<bar>z1\<bar> \<le> 10" "\<bar>x2\<bar> \<le> 10" "\<bar>z2\<bar> \<le> 10" "\<bar>h1\<bar> \<le> 10" "\<bar>h2\<bar> \<le> 10"
  proof -
    show "\<bar>x1\<bar> \<le> 10" using coordinate_le_radius(1)[of x1 z1] r(1,3) by linarith
    show "\<bar>z1\<bar> \<le> 10" using coordinate_le_radius(2)[of z1 x1] r(1,3) by linarith
    show "\<bar>x2\<bar> \<le> 10" using coordinate_le_radius(1)[of x2 z2] r(2,4) by linarith
    show "\<bar>z2\<bar> \<le> 10" using coordinate_le_radius(2)[of z2 x2] r(2,4) by linarith
    show "\<bar>h1\<bar> \<le> 10" using h(1,3) by linarith
    show "\<bar>h2\<bar> \<le> 10" using h(2,3) by linarith
  qed
  from sum_squares[OF c(1,3,5,6,2,4)] obtain S where
    S: "jadd (jadd (Math_pow (jsub (Fin x1) (Fin x2)) 2) (Math_pow (jsub (Fin h1) (Fin h2)) 2))
                  (Math_pow (jsub (Fin z1) (Fin z2)) 2) = Fin S" "0 \<le> S"
    "\<bar>S - ((x1 - x2)\<^sup>2 + (h1 - h2)\<^sup>2 + (z1 - z2)\<^sup>2)\<bar> \<le> 1 / 2 ^ 30" by blast
  have "0 \<le> sqrt (x1\<^sup>2 + z1\<^sup>2) + sqrt (x2\<^sup>2 + z2\<^sup>2)" by simp
  moreover have "sqrt (x1\<^sup>2 + z1\<^sup>2) + sqrt (x2\<^sup>2 + z2\<^sup>2) \<le> a + b" using r(1,2) by linarith
  ultimately have "(sqrt (x1\<^sup>2 + z1\<^sup>2) + sqrt (x2\<^sup>2 + z2\<^sup>2))\<^sup>2 \<le> (a + b)\<^sup>2"
    by (intro power_mono)
  with planar_triangle(1)[of x1 x2 z1 z2] have p: "(x1 - x2)\<^sup>2 + (z1 - z2)\<^sup>2 \<le> (a + b)\<^sup>2"
    by linarith
  have "\<bar>h1 - h2\<bar> \<le> 2 * c" using h(1,2) by linarith
  then have "\<bar>h1 - h2\<bar>\<^sup>2 \<le> (2 * c)\<^sup>2" by (intro power_mono) simp_all
  then have q: "(h1 - h2)\<^sup>2 \<le> (2 * c)\<^sup>2" by simp
  have "S \<le> B\<^sup>2" using S(3) p q B(4) by linarith
  then have "sqrt S \<le> B" using B(2) by (simp add: real_le_lsqrt)
  moreover have "0 \<le> sqrt S" using S(2) by simp
  ultimately obtain d where d: "to_double (sqrt S) = Fin d" "0 \<le> d" "d \<le> B"
    using to_double_between[OF representable_0 B(1)] by blast
  have "distance (position n) (position m) = Fin d"
    unfolding n m distance.simps S(1) using S(2) d(1) by simp
  with d(2,3) show ?thesis by blast
qed

text \<open>Two nodes whose planar radii differ much have a large distance.\<close>

lemma distance_above:
  assumes n: "position n = (Fin x1, Fin h1, Fin z1)" and m: "position m = (Fin x2, Fin h2, Fin z2)"
    and r: "sqrt (x1\<^sup>2 + z1\<^sup>2) \<le> a" "b \<le> sqrt (x2\<^sup>2 + z2\<^sup>2)" "sqrt (x2\<^sup>2 + z2\<^sup>2) \<le> 10" "a \<le> b"
    and h: "\<bar>h1\<bar> \<le> 10" "\<bar>h2\<bar> \<le> 10"
    and B: "representable B" "0 \<le> B" "B \<le> 64" "B\<^sup>2 + 1 / 2 ^ 30 \<le> (b - a)\<^sup>2"
  shows "\<exists>d. distance (position n) (position m) = Fin d \<and> B \<le> d"
proof -
  have c: "\<bar>x1\<bar> \<le> 10" "\<bar>z1\<bar> \<le> 10" "\<bar>x2\<bar> \<le> 10" "\<bar>z2\<bar> \<le> 10"
  proof -
    show "\<bar>x1\<bar> \<le> 10" using coordinate_le_radius(1)[of x1 z1] r(1,3,4,2) by linarith
    show "\<bar>z1\<bar> \<le> 10" using coordinate_le_radius(2)[of z1 x1] r(1,3,4,2) by linarith
    show "\<bar>x2\<bar> \<le> 10" using coordinate_le_radius(1)[of x2 z2] r(3) by linarith
    show "\<bar>z2\<bar> \<le> 10" using coordinate_le_radius(2)[of z2 x2] r(3) by linarith
  qed
  from sum_squares[OF c(1,3) h c(2,4)] obtain S where
    S: "jadd (jadd (Math_pow (jsub (Fin x1) (Fin x2)) 2) (Math_pow (jsub (Fin h1) (Fin h2)) 2))
                  (Math_pow (jsub (Fin z1) (Fin z2)) 2) = Fin S" "0 \<le> S" "S \<le> 4096"
    "\<bar>S - ((x1 - x2)\<^sup>2 + (h1 - h2)\<^sup>2 + (z1 - z2)\<^sup>2)\<bar> \<le> 1 / 2 ^ 30" by blast
  have "0 \<le> b - a" using r(4) by simp
  moreover have "b - a \<le> sqrt (x2\<^sup>2 + z2\<^sup>2) - sqrt (x1\<^sup>2 + z1\<^sup>2)" using r(1,2) by linarith
  ultimately have "(b - a)\<^sup>2 \<le> (sqrt (x2\<^sup>2 + z2\<^sup>2) - sqrt (x1\<^sup>2 + z1\<^sup>2))\<^sup>2"
    by (intro power_mono)
  with planar_triangle(2)[of x2 z2 x1 z1] have p: "(b - a)\<^sup>2 \<le> (x1 - x2)\<^sup>2 + (z1 - z2)\<^sup>2"
    by linarith
  have "0 \<le> (h1 - h2)\<^sup>2" by simp
  with S(4) p B(4) have "B\<^sup>2 \<le> S" by linarith
  then have lo: "B \<le> sqrt S" using B(2) by (simp add: real_le_rsqrt)
  have hi: "sqrt S \<le> 64" by (rule real_le_lsqrt) (use S(3) in simp_all)
  from to_double_between[OF B(1) _ lo hi] obtain d where d: "to_double (sqrt S) = Fin d" "B \<le> d"
    by auto
  have "distance (position n) (position m) = Fin d"
    unfolding n m distance.simps S(1) using S(2) d(1) by simp
  with d(2) show ?thesis by blast
qed


section \<open>Concrete runs\<close>

lemma ring_size_numeral [simp]:
  "ring_size (Fin 0) = 0" "ring_size (Fin 1) = 1" "ring_size (Fin (numeral w)) = numeral w"
  "ring_size (Fin (- numeral w)) = 0"
  by (simp_all add: ring_size_def)

lemma selectEdges_one: "nodes g = [n] \<Longrightarrow> selectEdges cfg g = g"
  by (simp add: selectEdges_visited_pairs visited_pairs_def all_pairs_def)

lemma visited_pairs_2: "visited_pairs 2 = [(0, 1)]"
  by (simp add: visited_pairs_def all_pairs_def numeral_2_eq_2)

lemma selectEdges_two: "nodes g = [n, m] \<Longrightarrow> selectEdges cfg g = visit cfg n 0 m 1 g"
  using visited_pairs_2
  by (simp add: selectEdges_visited_pairs visit_at_def numeral_2_eq_2)

lemma ring_nodes_1: "ring_nodes R H 1 s = [ring_node R H s]"
  by simp

lemma ring_nodes_2: "ring_nodes R H 2 s = [ring_node R H s, ring_node R H (next3 s)]"
  by (simp add: numeral_2_eq_2)

lemma finite_counts_simps [simp]:
  "finite_counts CONFIG" "finite_counts two_central" "finite_counts one_central"
  "finite_counts central_outer" "finite_counts no_nodes" "finite_counts zero_distance"
  "finite_counts always_reject" "finite_counts restyled"
  by (simp_all add: finite_counts_def CONFIG_def two_central_def one_central_def
      central_outer_def no_nodes_def zero_distance_def always_reject_def restyled_def)

lemma seq_from_1:
  "next_seed (Fin 1) = Fin 58598" "next_seed (Fin 58598) = Fin 127215"
  "next_seed (Fin 127215) = Fin 79852" "next_seed (Fin 79852) = Fin 222509"
  "next_seed (Fin 222509) = Fin 178626" "next_seed (Fin 178626) = Fin 29563"
  "next_seed (Fin 29563) = Fin 210920"
  using next_seed_int[of 1] next_seed_int[of 58598] next_seed_int[of 127215]
    next_seed_int[of 79852] next_seed_int[of 222509] next_seed_int[of 178626]
    next_seed_int[of 29563]
  by simp_all

lemma next3_from_1: "next3 (Fin 1) = Fin 79852" "next3 (Fin 79852) = Fin 29563"
  by (simp_all add: next3_def seq_from_1)

lemma exact_seed_numeral [simp]:
  "exact_seed (Fin 1)" "numeral w * 9301 + 49297 < (2::real) ^ 53 \<Longrightarrow> exact_seed (Fin (numeral w))"
  by (simp_all add: exact_seed_def)

lemma nodes_two_central:
  "nodes (populated two_central (Fin 1)) =
     [ring_node central_R inner_H (Fin 1), ring_node central_R inner_H (Fin 79852)]"
  by (simp add: central_ring_def middle_ring_def outer_ring_def two_central_def ring_nodes_2
      next3_from_1)

lemma state_two_central:
  "seedValue (populated two_central (Fin 1)) = Fin 29563" "draws (populated two_central (Fin 1)) = 6"
  by (simp_all add: populated_def two_central_def numeral_2_eq_2 next3_from_1)

lemma nodes_central_outer:
  "nodes (populated central_outer (Fin 1)) =
     [ring_node central_R inner_H (Fin 1), ring_node outer_R outer_H (Fin 79852)]"
  by (simp add: central_ring_def middle_ring_def outer_ring_def central_outer_def ring_nodes_1
      next3_from_1)

lemma draws_central_outer: "draws (populated central_outer (Fin 1)) = 6"
  by (simp add: populated_def central_outer_def)

text \<open>The second and the fifth value from the seed 1, between two doubles each.\<close>

lemma second_unit: "\<exists>t. unit_of (Fin 127215) = Fin t \<and> 1 / 2 \<le> t \<and> t \<le> 9 / 16"
proof -
  have "representable (9 / 16)" using representable_frac[of 9 4] by simp
  from to_double_between[OF representable_half this, of "127215 / 233280"] show ?thesis
    by (simp add: unit_of_Fin)
qed

lemma fifth_unit: "\<exists>t. unit_of (Fin 178626) = Fin t \<and> 3 / 4 \<le> t \<and> t \<le> 13 / 16"
proof -
  have "representable (3 / 4)" "representable (13 / 16)"
    using representable_frac[of 3 2] representable_frac[of 13 4] by simp_all
  from to_double_between[OF this, of "178626 / 233280"] show ?thesis
    by (simp add: unit_of_Fin)
qed

lemma unit_exact_seed:
  assumes "exact_seed s"
  shows "\<exists>t. unit_of (next_seed s) = Fin t \<and> 0 \<le> t \<and> t \<le> 1 \<and> \<bar>t\<bar> \<le> 1"
proof -
  from unit_of_exact[OF assms] obtain t where
    t: "unit_of (next_seed s) = Fin t" "0 \<le> t" "t \<le> 1 - 1 / 2 ^ 18" by blast
  have "t \<le> 1" using t(3) by (smt (verit) divide_nonneg_nonneg zero_le_power)
  with t(1,2) show ?thesis by auto
qed

text \<open>The three nodes of the two small configurations.\<close>

lemma first_central:
  "\<exists>x h z. position (ring_node central_R inner_H (Fin 1)) = (Fin x, Fin h, Fin z) \<and>
     sqrt (x\<^sup>2 + z\<^sup>2) \<le> 27 / 20 \<and> \<bar>h\<bar> \<le> 1"
proof -
  from unit_exact_seed[of "Fin 1"] obtain t where
    t: "unit_of (next_seed (Fin 1)) = Fin t" "\<bar>t\<bar> \<le> 1" by auto
  from second_unit obtain u where u: "unit_of (Fin 127215) = Fin u" "1 / 2 \<le> u" "u \<le> 9 / 16"
    by blast
  have "\<exists>\<rho>. central_R (Fin u) = Fin \<rho> \<and> 1 / 2 \<le> \<rho> \<and> \<rho> \<le> 43 / 32"
    unfolding central_R_def
    by (rule affine_range[where lo' = 0 and hi' = "27 / 32" and a = 0 and b = "9 / 16"])
       (use u representable_frac[of 27 5] representable_frac[of 43 5] in simp_all)
  then obtain \<rho> where \<rho>: "central_R (Fin u) = Fin \<rho>" "1 / 2 \<le> \<rho>" "\<rho> \<le> 43 / 32" by blast
  have r: "central_R (unit_of (next_seed (next_seed (Fin 1)))) = Fin \<rho>"
    by (simp add: seq_from_1 u(1) \<rho>(1))
  from unit_exact_seed[of "Fin 127215"] obtain v where
    v: "unit_of (Fin 79852) = Fin v" "0 \<le> v" "v \<le> 1" by (auto simp: seq_from_1)
  from inner_H_range[OF v(2,3)] obtain h where h: "inner_H (Fin v) = Fin h" "\<bar>h\<bar> \<le> 1" by blast
  have "\<rho> \<le> 16" using \<rho>(3) by simp
  from ring_node_radius[where R = central_R and H = inner_H, OF t r \<rho>(2) this] obtain x z where
    p: "position (ring_node central_R inner_H (Fin 1)) = (Fin x, Fin h, Fin z)"
    and e: "\<bar>sqrt (x\<^sup>2 + z\<^sup>2) - \<rho>\<bar> \<le> \<rho> / 2 ^ 50"
    by (auto simp: next3_from_1 v(1) h(1))
  have "\<rho> / 2 ^ 50 \<le> (43 / 32) / 2 ^ 50" using \<rho>(3) by (intro divide_right_mono) simp_all
  with e \<rho>(3) have "sqrt (x\<^sup>2 + z\<^sup>2) \<le> 43 / 32 + (43 / 32) / 2 ^ 50" by linarith
  also have "\<dots> \<le> 27 / 20" by simp
  finally show ?thesis using p h(2) by blast
qed

lemma second_central:
  "\<exists>x h z. position (ring_node central_R inner_H (Fin 79852)) = (Fin x, Fin h, Fin z) \<and>
     sqrt (x\<^sup>2 + z\<^sup>2) \<le> 7 / 4 \<and> \<bar>h\<bar> \<le> 1"
proof -
  from unit_exact_seed[of "Fin 79852"] obtain t where
    t: "unit_of (next_seed (Fin 79852)) = Fin t" "\<bar>t\<bar> \<le> 1" by auto
  from fifth_unit obtain u where u: "unit_of (Fin 178626) = Fin u" "3 / 4 \<le> u" "u \<le> 13 / 16"
    by blast
  have "\<exists>\<rho>. central_R (Fin u) = Fin \<rho> \<and> 1 / 2 \<le> \<rho> \<and> \<rho> \<le> 55 / 32"
    unfolding central_R_def
    by (rule affine_range[where lo' = 0 and hi' = "39 / 32" and a = 0 and b = "13 / 16"])
       (use u representable_frac[of 39 5] representable_frac[of 55 5] in simp_all)
  then obtain \<rho> where \<rho>: "central_R (Fin u) = Fin \<rho>" "1 / 2 \<le> \<rho>" "\<rho> \<le> 55 / 32" by blast
  have r: "central_R (unit_of (next_seed (next_seed (Fin 79852)))) = Fin \<rho>"
    by (simp add: seq_from_1 u(1) \<rho>(1))
  from unit_exact_seed[of "Fin 178626"] obtain v where
    v: "unit_of (Fin 29563) = Fin v" "0 \<le> v" "v \<le> 1" by (auto simp: seq_from_1)
  from inner_H_range[OF v(2,3)] obtain h where h: "inner_H (Fin v) = Fin h" "\<bar>h\<bar> \<le> 1" by blast
  have "\<rho> \<le> 16" using \<rho>(3) by simp
  from ring_node_radius[where R = central_R and H = inner_H, OF t r \<rho>(2) this] obtain x z where
    p: "position (ring_node central_R inner_H (Fin 79852)) = (Fin x, Fin h, Fin z)"
    and e: "\<bar>sqrt (x\<^sup>2 + z\<^sup>2) - \<rho>\<bar> \<le> \<rho> / 2 ^ 50"
    by (auto simp: next3_from_1 v(1) h(1))
  have "\<rho> / 2 ^ 50 \<le> (55 / 32) / 2 ^ 50" using \<rho>(3) by (intro divide_right_mono) simp_all
  with e \<rho>(3) have "sqrt (x\<^sup>2 + z\<^sup>2) \<le> 55 / 32 + (55 / 32) / 2 ^ 50" by linarith
  also have "\<dots> \<le> 7 / 4" by simp
  finally show ?thesis using p h(2) by blast
qed

lemma second_outer:
  "\<exists>x h z. position (ring_node outer_R outer_H (Fin 79852)) = (Fin x, Fin h, Fin z) \<and>
     79 / 10 \<le> sqrt (x\<^sup>2 + z\<^sup>2) \<and> sqrt (x\<^sup>2 + z\<^sup>2) \<le> 10 \<and> \<bar>h\<bar> \<le> 3"
proof -
  from unit_exact_seed[of "Fin 79852"] obtain t where
    t: "unit_of (next_seed (Fin 79852)) = Fin t" "\<bar>t\<bar> \<le> 1" by auto
  from fifth_unit obtain u where u: "unit_of (Fin 178626) = Fin u" "3 / 4 \<le> u" "u \<le> 13 / 16"
    by blast
  have "\<exists>\<rho>. outer_R (Fin u) = Fin \<rho> \<and> 8 \<le> \<rho> \<and> \<rho> \<le> 9"
    unfolding outer_R_def
    by (rule affine_range[where lo' = 3 and hi' = 4 and a = "3 / 4" and b = 1])
       (use u in simp_all)
  then obtain \<rho> where \<rho>: "outer_R (Fin u) = Fin \<rho>" "8 \<le> \<rho>" "\<rho> \<le> 9" by blast
  have r: "outer_R (unit_of (next_seed (next_seed (Fin 79852)))) = Fin \<rho>"
    by (simp add: seq_from_1 u(1) \<rho>(1))
  from unit_exact_seed[of "Fin 178626"] obtain v where
    v: "unit_of (Fin 29563) = Fin v" "0 \<le> v" "v \<le> 1" by (auto simp: seq_from_1)
  from outer_H_range[OF v(2,3)] obtain h where h: "outer_H (Fin v) = Fin h" "\<bar>h\<bar> \<le> 3" by blast
  have b: "1 / 2 \<le> \<rho>" "\<rho> \<le> 16" using \<rho>(2,3) by simp_all
  from ring_node_radius[where R = outer_R and H = outer_H, OF t r b] obtain x z where
    p: "position (ring_node outer_R outer_H (Fin 79852)) = (Fin x, Fin h, Fin z)"
    and e: "\<bar>sqrt (x\<^sup>2 + z\<^sup>2) - \<rho>\<bar> \<le> \<rho> / 2 ^ 50"
    by (auto simp: next3_from_1 v(1) h(1))
  have "\<rho> / 2 ^ 50 \<le> 9 / 2 ^ 50" using \<rho>(3) by (intro divide_right_mono) simp_all
  with e \<rho>(2,3) have "8 - 9 / 2 ^ 50 \<le> sqrt (x\<^sup>2 + z\<^sup>2)" "sqrt (x\<^sup>2 + z\<^sup>2) \<le> 9 + 9 / 2 ^ 50"
    by linarith+
  then have "79 / 10 \<le> sqrt (x\<^sup>2 + z\<^sup>2)" "sqrt (x\<^sup>2 + z\<^sup>2) \<le> 10" by simp_all
  then show ?thesis using p h(2) by blast
qed

lemma distance_literal:
  "\<exists>c. to_double (43 / 10) = Fin c \<and> 17 / 4 \<le> c \<and> c \<le> 9 / 2"
proof -
  have "representable (17 / 4)" "representable (9 / 2)"
    using representable_frac[of 17 2] representable_frac[of 9 1] by simp_all
  from to_double_between[OF this, of "43 / 10"] show ?thesis by simp
qed

lemma connectionDistance_simps [simp]:
  "connectionDistance two_central = to_double (43 / 10)"
  "connectionDistance central_outer = to_double (43 / 10)"
  "connectionProbability two_central = to_double (35 / 100)"
  by (simp_all add: two_central_def central_outer_def CONFIG_def)

lemma near_two_central:
  "near two_central (ring_node central_R inner_H (Fin 1)) (ring_node central_R inner_H (Fin 79852))"
proof -
  from first_central obtain x1 h1 z1 where
    n: "position (ring_node central_R inner_H (Fin 1)) = (Fin x1, Fin h1, Fin z1)"
    and r1: "sqrt (x1\<^sup>2 + z1\<^sup>2) \<le> 27 / 20" and h1: "\<bar>h1\<bar> \<le> 1" by blast
  from second_central obtain x2 h2 z2 where
    m: "position (ring_node central_R inner_H (Fin 79852)) = (Fin x2, Fin h2, Fin z2)"
    and r2: "sqrt (x2\<^sup>2 + z2\<^sup>2) \<le> 7 / 4" and h2: "\<bar>h2\<bar> \<le> 1" by blast
  have "\<exists>d. distance (position (ring_node central_R inner_H (Fin 1)))
               (position (ring_node central_R inner_H (Fin 79852))) = Fin d \<and> 0 \<le> d \<and> d \<le> 4"
    by (rule distance_below[OF n m r1 r2 _ _ h1 h2]) (simp_all add: power2_eq_square)
  then obtain d where d: "distance (position (ring_node central_R inner_H (Fin 1)))
               (position (ring_node central_R inner_H (Fin 79852))) = Fin d" "d \<le> 4" by blast
  from distance_literal obtain c where c: "to_double (43 / 10) = Fin c" "17 / 4 \<le> c" by blast
  show ?thesis unfolding near_def d(1) using d(2) c by simp
qed

lemma far_central_outer:
  "\<not> near central_outer (ring_node central_R inner_H (Fin 1))
                          (ring_node outer_R outer_H (Fin 79852))"
proof -
  from first_central obtain x1 h1 z1 where
    n: "position (ring_node central_R inner_H (Fin 1)) = (Fin x1, Fin h1, Fin z1)"
    and r1: "sqrt (x1\<^sup>2 + z1\<^sup>2) \<le> 27 / 20" and h1: "\<bar>h1\<bar> \<le> 1" by blast
  from second_outer obtain x2 h2 z2 where
    m: "position (ring_node outer_R outer_H (Fin 79852)) = (Fin x2, Fin h2, Fin z2)"
    and r2: "79 / 10 \<le> sqrt (x2\<^sup>2 + z2\<^sup>2)" "sqrt (x2\<^sup>2 + z2\<^sup>2) \<le> 10" and h2: "\<bar>h2\<bar> \<le> 3" by blast
  have h: "\<bar>h1\<bar> \<le> 10" "\<bar>h2\<bar> \<le> 10" using h1 h2 by linarith+
  have "\<exists>d. distance (position (ring_node central_R inner_H (Fin 1)))
               (position (ring_node outer_R outer_H (Fin 79852))) = Fin d \<and> 9 / 2 \<le> d"
    by (rule distance_above[OF n m r1 r2 _ h])
       (use representable_frac[of 9 1] in \<open>simp_all add: power2_eq_square\<close>)
  then obtain d where d: "distance (position (ring_node central_R inner_H (Fin 1)))
               (position (ring_node outer_R outer_H (Fin 79852))) = Fin d" "9 / 2 \<le> d" by blast
  from distance_literal obtain c where c: "to_double (43 / 10) = Fin c" "c \<le> 9 / 2" by blast
  show ?thesis unfolding near_def d(1) using d(2) c by simp
qed

lemma accepts_two_central: "accepts two_central (populated two_central (Fin 1))"
proof -
  have "representable (3 / 8)" using representable_frac[of 3 3] by simp
  from to_double_between[OF representable_0 this, of "35 / 100"] obtain p where
    p: "to_double (35 / 100) = Fin p" "p \<le> 3 / 8" by auto
  from to_double_between[OF representable_half representable_1, of "210920 / 233280"] obtain u where
    u: "unit_of (Fin 210920) = Fin u" "1 / 2 \<le> u" by (auto simp: unit_of_Fin)
  show ?thesis
    using p u by (simp add: accepts_def state_two_central seq_from_1 gt_def)
qed

lemma run_central_outer:
  "run central_outer (Fin 1) = Some (populated central_outer (Fin 1))"
  by (simp add: run_eq selectEdges_two[OF nodes_central_outer] visit_eq far_central_outer
      del: populated_simps)

lemma run_two_central:
  "run two_central (Fin 1) =
     Some ((populated two_central (Fin 1))
       \<lparr>seedValue := Fin 210920, draws := 7,
        connections := [edge_of two_central (ring_node central_R inner_H (Fin 1))
                          (ring_node central_R inner_H (Fin 79852))],
        pushed := [(0, 1)],
        divisions := [(distance (position (ring_node central_R inner_H (Fin 1)))
                         (position (ring_node central_R inner_H (Fin 79852))),
                       connectionDistance two_central)]\<rparr>)"
  by (simp add: run_eq selectEdges_two[OF nodes_two_central] visit_eq near_two_central
      accepts_two_central state_two_central seq_from_1 del: populated_simps connectionDistance_simps)
     simp

lemma run_one_central_NaN:
  "generateMindMap one_central NaN = Some \<lparr>nodes = [\<lparr>position = (NaN, NaN, NaN)\<rparr>], connections = []\<rparr>"
proof -
  have n: "nodes (populated one_central NaN) = [\<lparr>position = (NaN, NaN, NaN)\<rparr>]"
    by (simp add: central_ring_def middle_ring_def outer_ring_def one_central_def ring_nodes_1
        ring_node_def Let_def next_seed_def inner_H_def jsub_def)
  have f: "finite_counts one_central" by simp
  show ?thesis
    unfolding generateMindMap_eq[OF f] selectEdges_one[OF n] n by simp
qed

text \<open>A seed for which \<^verbatim>\<open>seedValue * 9301\<close> overflows.\<close>

lemma next_seed_overflow: "next_seed huge_seed = NaN"
proof -
  have "(2::real) ^ 1024 = 2 ^ 1020 * 2 ^ 4" by (simp only: power_add[symmetric]) simp
  also have "\<dots> \<le> 2 ^ 1020 * 9301" by (intro mult_left_mono) simp_all
  finally have o: "to_double (2 ^ 1020 * 9301) = PInf" by (rule to_double_overflow)
  show ?thesis unfolding next_seed_def huge_seed_def jmul.simps o by simp
qed

lemma run_one_central_overflow:
  "generateMindMap one_central huge_seed =
     Some \<lparr>nodes = [\<lparr>position = (NaN, NaN, NaN)\<rparr>], connections = []\<rparr>"
proof -
  have n: "nodes (populated one_central huge_seed) = [\<lparr>position = (NaN, NaN, NaN)\<rparr>]"
    by (simp add: central_ring_def middle_ring_def outer_ring_def one_central_def ring_nodes_1
        ring_node_def Let_def next_seed_overflow next_seed_special inner_H_def jsub_def)
  have f: "finite_counts one_central" by simp
  show ?thesis
    unfolding generateMindMap_eq[OF f] selectEdges_one[OF n] n by simp
qed

lemma big_sum: "to_double (9301 * 2 ^ 53 + 49297) = Fin (9301 * 2 ^ 53 + 49152)"
proof -
  have "rounded (9301 * 2 ^ 53 + 49297) =
          of_int (round_half_even ((9301 * 2 ^ 53 + 49297) / 2 ^ 14)) * 2 ^ 14"
    by (rule rounded_eval_up) simp_all
  also have "round_half_even ((9301 * 2 ^ 53 + 49297) / 2 ^ 14) = 9301 * 2 ^ 39 + 3"
    by (simp add: round_half_even_def Let_def)
  finally have "rounded (9301 * 2 ^ 53 + 49297) = 9301 * 2 ^ 53 + 49152" by simp
  then show ?thesis by (simp add: to_double_def Let_def)
qed

lemma first_value: "to_double (58598 / 233280) = Fin (2262533701686011 / 2 ^ 53)"
proof -
  have r: "round_half_even (58598 / 233280 * 2 ^ 54) = 4525067403372022"
    by (simp add: round_half_even_def Let_def)
  have "rounded (58598 / 233280) = of_int (round_half_even (58598 / 233280 * 2 ^ 54)) / 2 ^ 54"
    by (rule rounded_eval_down) simp_all
  then have "rounded (58598 / 233280) = 2262533701686011 / 2 ^ 53"
    unfolding r by simp
  then show ?thesis by (simp add: to_double_def Let_def)
qed


section \<open>Further values\<close>

lemma nodeSize_differs: "to_double (8 / 100) \<noteq> to_double (1 / 10)"
proof -
  have r: "representable (11 / 128)" "representable (3 / 32)"
    using representable_frac[of 11 7] representable_frac[of 3 5] by simp_all
  from to_double_between[OF representable_0 r(1), of "8 / 100"] obtain a where
    a: "to_double (8 / 100) = Fin a" "a \<le> 11 / 128" by auto
  from to_double_between[OF r(2) representable_1, of "1 / 10"] obtain b where
    b: "to_double (1 / 10) = Fin b" "3 / 32 \<le> b" by auto
  from a(2) b(2) have "a \<noteq> b" by linarith
  then show ?thesis unfolding a(1) b(1) by simp
qed

lemma good_SEED: "good SEED"
proof -
  have "representable 512" by simp
  from to_double_between[OF representable_0 this, of "2640517968528827 / 10000000000000"]
  obtain s where s: "SEED = Fin s" "0 \<le> s" "s \<le> 512" by (auto simp: SEED_def)
  have "s \<le> 2 ^ 1000"
  proof -
    have "s \<le> 2 ^ 9" using s(3) by simp
    also have "(2::real) ^ 9 \<le> 2 ^ 1000" by (rule power_increasing) simp_all
    finally show ?thesis .
  qed
  from good_bounded[OF s(2) this] show ?thesis by (simp add: s(1))
qed

lemma state_after_draw: "seedValue (snd (seededRandom (init s))) = next_seed s"
  by (simp add: seededRandom_eq init_def)

lemma next_seed_negative: "next_seed (Fin (- 10)) = Fin (- 43713)"
proof -
  have a: "to_double (- 93010) = Fin (- 93010)" "to_double (- 43713) = Fin (- 43713)"
    using to_double_int[of "- 93010"] to_double_int[of "- 43713"] by simp_all
  show ?thesis by (simp add: next_seed_def a trunc_def)
qed

lemma next_seed_large: "next_seed (Fin (2 ^ 53)) = Fin 45824"
proof -
  have a: "to_double (2 ^ 53 * 9301) = Fin (9301 * 2 ^ 53)"
    using to_double_exact[OF representable_scaled[of 9301 53]] by (simp add: mult.commute)
  have c: "jmod (Fin (9301 * 2 ^ 53 + 49152)) (Fin 233280) = Fin 45824"
    using rem_int[of "9301 * 2 ^ 53 + 49152"] by simp
  show ?thesis unfolding next_seed_def jmul.simps a jadd.simps big_sum c ..
qed

lemma central_close:
  "good s \<Longrightarrow> \<forall>n \<in> set (ring_nodes central_R H k s). close_to (1 / 2) 2 (planar_radius n)"
  by (rule ring_nodes_all[where P = good]) (auto intro: good_next3 ring_node_close central_R_range)

lemma middle_close:
  "good s \<Longrightarrow> \<forall>n \<in> set (ring_nodes middle_R H k s). close_to 3 5 (planar_radius n)"
  by (rule ring_nodes_all[where P = good]) (auto intro: good_next3 ring_node_close middle_R_range)

lemma outer_close:
  "good s \<Longrightarrow> \<forall>n \<in> set (ring_nodes outer_R H k s). close_to 5 9 (planar_radius n)"
  by (rule ring_nodes_all[where P = good]) (auto intro: good_next3 ring_node_close outer_R_range)

lemma central_below:
  "exact_seed s \<Longrightarrow> \<forall>n \<in> set (ring_nodes central_R H k s). lt (planar_radius n) (Fin 2)"
proof (rule ring_nodes_all[where P = exact_seed])
  fix s assume e: "exact_seed s"
  show "lt (planar_radius (ring_node central_R H s)) (Fin 2)"
  proof (rule ring_node_below[OF e])
    fix t :: real assume "0 \<le> t" "t \<le> 1 - 1 / 2 ^ 18"
    from central_R_below[OF this]
    show "\<exists>\<rho>. central_R (Fin t) = Fin \<rho> \<and> 1 / 2 \<le> \<rho> \<and> \<rho> \<le> 2 - 1 / 2 ^ 19" by auto
  qed simp
qed (simp_all add: exact_next3)

lemma middle_below:
  "exact_seed s \<Longrightarrow> \<forall>n \<in> set (ring_nodes middle_R H k s). lt (planar_radius n) (Fin 5)"
proof (rule ring_nodes_all[where P = exact_seed])
  fix s assume e: "exact_seed s"
  show "lt (planar_radius (ring_node middle_R H s)) (Fin 5)"
  proof (rule ring_node_below[OF e])
    fix t :: real assume "0 \<le> t" "t \<le> 1 - 1 / 2 ^ 18"
    from middle_R_below[OF this]
    show "\<exists>\<rho>. middle_R (Fin t) = Fin \<rho> \<and> 1 / 2 \<le> \<rho> \<and> \<rho> \<le> 5 - 1 / 2 ^ 19" by auto
  qed simp
qed (simp_all add: exact_next3)

lemma outer_below:
  "exact_seed s \<Longrightarrow> \<forall>n \<in> set (ring_nodes outer_R H k s). lt (planar_radius n) (Fin 9)"
proof (rule ring_nodes_all[where P = exact_seed])
  fix s assume e: "exact_seed s"
  show "lt (planar_radius (ring_node outer_R H s)) (Fin 9)"
  proof (rule ring_node_below[OF e])
    fix t :: real assume "0 \<le> t" "t \<le> 1 - 1 / 2 ^ 18"
    from outer_R_below[OF this]
    show "\<exists>\<rho>. outer_R (Fin t) = Fin \<rho> \<and> 1 / 2 \<le> \<rho> \<and> \<rho> \<le> 9 - 1 / 2 ^ 19" by auto
  qed simp
qed (simp_all add: exact_next3)

section \<open>The properties of the specification\<close>

subsection \<open>C1\<close>

text \<open>
  Claim C1 (determinism). \<^verbatim>\<open>generateMindMap\<close> reads nothing but its two arguments and
  builds its state afresh at every call, so two calls with identical arguments return identical
  results: the same nodes in the same order and the same connections, endpoints and opacities.
  The theorem is stronger: the result depends only on the seed and on the five fields of the
  configuration that the generator reads. Two configurations that agree on them, identical
  ones in particular, give the same result.
\<close>

theorem generateMindMap_deterministic:
  assumes "centralNodes c = centralNodes c'" "middleNodes c = middleNodes c'"
    "outerNodes c = outerNodes c'" "connectionDistance c = connectionDistance c'"
    "connectionProbability c = connectionProbability c'" "seed = seed'"
  shows "generateMindMap c seed = generateMindMap c' seed'"
proof -
  have v: "visit c = visit c'"
    by (simp add: fun_eq_iff visit_eq near_def accepts_def edge_of_def opacity_of_def assms)
  have "selectEdges c = selectEdges c'"
    by (simp add: fun_eq_iff selectEdges_def v)
  moreover have "populate c seed = populate c' seed'"
    by (simp add: populate_def assms)
  ultimately show ?thesis
    by (simp add: generateMindMap_def run_def)
qed

text \<open>The page's configuration and one that differs in the four visual fields only.\<close>

theorem generateMindMap_deterministic_witness:
  "nodeSize CONFIG \<noteq> nodeSize restyled \<and>
   generateMindMap CONFIG SEED = generateMindMap restyled SEED"
  using generateMindMap_deterministic[of CONFIG restyled SEED SEED] nodeSize_differs
  by (simp add: restyled_def CONFIG_def)

subsection \<open>C2\<close>

text \<open>
  Claim C2 as amended (draws of edge selection). Edge selection visits the pairs \<open>i < j\<close> in
  the order of the two nested loops (\<open>i\<close> outer, \<open>j\<close> inner). A visited pair draws exactly one
  value when its distance is below \<^verbatim>\<open>connectionDistance\<close> and none otherwise, whether or not a
  connection is then pushed; so edge selection draws as many values as there are visited pairs
  within the distance.
\<close>

theorem draw_only_within_distance:
  "selectEdges cfg g = fold (visit_at cfg (nodes g)) (visited_pairs (length (nodes g))) g \<and>
   (i < j \<longrightarrow>
      draws (visit cfg n i m j g) =
        draws g + (if lt (distance (position n) (position m)) (connectionDistance cfg)
                   then 1 else 0)) \<and>
   draws (selectEdges cfg g) =
     draws g + length (filter (\<lambda>(i, j). near cfg (nodes g ! i) (nodes g ! j))
                         (visited_pairs (length (nodes g))))"
proof (intro conjI impI)
  show "selectEdges cfg g = fold (visit_at cfg (nodes g)) (visited_pairs (length (nodes g))) g"
    by (rule selectEdges_visited_pairs)
  show "draws (visit cfg n i m j g) =
        draws g + (if lt (distance (position n) (position m)) (connectionDistance cfg)
                   then 1 else 0)" if "i < j"
    using draws_visit[OF that] by (simp add: near_def)
  have "filter (\<lambda>(i, j). i < j \<and> near cfg (nodes g ! i) (nodes g ! j)) (visited_pairs (length (nodes g)))
      = filter (\<lambda>(i, j). near cfg (nodes g ! i) (nodes g ! j)) (visited_pairs (length (nodes g)))"
    by (rule filter_cong) (auto simp: visited_pairs_set)
  then show "draws (selectEdges cfg g) =
     draws g + length (filter (\<lambda>(i, j). near cfg (nodes g ! i) (nodes g ! j))
                         (visited_pairs (length (nodes g))))"
    by (simp add: selectEdges_visited_pairs fold_draws)
qed

text \<open>The pair of the two central nodes from the seed 1 is within the distance and draws the
  seventh value; the pair of a central and an outer node is not, and draws nothing.\<close>

theorem draw_only_within_distance_witness:
  "(0::nat) < 1 \<and>
   draws (visit two_central (ring_node central_R inner_H (Fin 1)) 0
            (ring_node central_R inner_H (Fin 79852)) 1 (populated two_central (Fin 1))) = 7 \<and>
   draws (visit central_outer (ring_node central_R inner_H (Fin 1)) 0
            (ring_node outer_R outer_H (Fin 79852)) 1 (populated central_outer (Fin 1))) = 6"
  using draw_only_within_distance[of two_central "populated two_central (Fin 1)" 0 1
          "ring_node central_R inner_H (Fin 1)" "ring_node central_R inner_H (Fin 79852)"]
        draw_only_within_distance[of central_outer "populated central_outer (Fin 1)" 0 1
          "ring_node central_R inner_H (Fin 1)" "ring_node outer_R outer_H (Fin 79852)"]
        near_two_central far_central_outer
  by (simp add: near_def state_two_central draws_central_outer del: populated_simps)

text \<open>
  Claim C2 says that every visited pair \<open>i < j\<close> draws exactly one value, whether or not its
  distance passes the test. The code does not: \<^verbatim>\<open>d < config.connectionDistance && seededRandom() > ...\<close>
  calls \<^verbatim>\<open>seededRandom\<close> only when the distance test has passed. With the thresholds of the
  page, one central and one outer node and the seed 1, the six draws of the two nodes have been
  made when edge selection starts, the only visited pair is \<open>(0, 1)\<close>, its nodes are more than
  4.3 apart, and the run ends with six draws.
\<close>

theorem draw_for_every_pair_counterexample:
  "map_option draws (populate central_outer (Fin 1)) = Some 6 \<and>
   map_option (length \<circ> nodes) (populate central_outer (Fin 1)) = Some 2 \<and>
   visited_pairs 2 = [(0, 1)] \<and>
   map_option draws (run central_outer (Fin 1)) = Some 6"
  by (simp add: populate_eq run_central_outer draws_central_outer nodes_central_outer
      visited_pairs_2 del: populated_simps)

subsection \<open>C3\<close>

text \<open>
  Claim C3 as amended (degenerate inputs). When every ring count is zero or negative,
  \<^verbatim>\<open>generateMindMap\<close> returns an empty node list and an empty connection list, for every seed.
  With a non-finite seed (\<^verbatim>\<open>NaN\<close>, \<^verbatim>\<open>Infinity\<close> or \<^verbatim>\<open>-Infinity\<close>), counts other than
  \<^verbatim>\<open>Infinity\<close> and fewer than \<open>2 ^ 32\<close> loop iterations in all (so that the node array can hold
  the nodes) it also returns without a fault, and with no connection; the node list then has
  one node for every iteration of the three loops, each with the coordinates \<^verbatim>\<open>NaN\<close>. It is
  empty only when no loop iterates.
\<close>

theorem degenerate_inputs:
  "(le (centralNodes cfg) (Fin 0) \<and> le (middleNodes cfg) (Fin 0) \<and> le (outerNodes cfg) (Fin 0)
      \<longrightarrow> generateMindMap cfg seed = Some \<lparr>nodes = [], connections = []\<rparr>) \<and>
   (finite_counts cfg \<and>
    ring_size (centralNodes cfg) + ring_size (middleNodes cfg) + ring_size (outerNodes cfg) < 2 ^ 32 \<and>
    (seed = NaN \<or> seed = PInf \<or> seed = NInf)
      \<longrightarrow> (\<exists>ns. generateMindMap cfg seed = Some \<lparr>nodes = ns, connections = []\<rparr> \<and>
             length ns = ring_size (centralNodes cfg) + ring_size (middleNodes cfg)
                         + ring_size (outerNodes cfg) \<and>
             (\<forall>n \<in> set ns. position n = (NaN, NaN, NaN))))"
proof (intro conjI impI)
  assume "le (centralNodes cfg) (Fin 0) \<and> le (middleNodes cfg) (Fin 0) \<and> le (outerNodes cfg) (Fin 0)"
  then have z: "ring_size (centralNodes cfg) = 0" "ring_size (middleNodes cfg) = 0"
    "ring_size (outerNodes cfg) = 0" and fin: "finite_counts cfg"
    using ring_size_nonpositive by (auto simp: finite_counts_def)
  have "nodes (populated cfg seed) = []"
    by (simp add: central_ring_def middle_ring_def outer_ring_def z)
  then show "generateMindMap cfg seed = Some \<lparr>nodes = [], connections = []\<rparr>"
    by (simp add: generateMindMap_eq[OF fin] selectEdges_no_nodes del: populated_simps) simp
next
  assume a: "finite_counts cfg \<and>
    ring_size (centralNodes cfg) + ring_size (middleNodes cfg) + ring_size (outerNodes cfg) < 2 ^ 32 \<and>
    (seed = NaN \<or> seed = PInf \<or> seed = NInf)"
  then have fin: "finite_counts cfg" and sp: "special seed" by (auto simp: special_def)
  let ?p = "populated cfg seed"
  have "\<not> near cfg (nodes ?p ! i) (nodes ?p ! j)" if "i < j" "j < length (nodes ?p)" for i j
  proof -
    from that have "nodes ?p ! i \<in> set (nodes ?p)" "nodes ?p ! j \<in> set (nodes ?p)"
      by (auto intro!: nth_mem simp del: populated_simps)
    with populated_special[OF sp, of cfg]
    have "position (nodes ?p ! i) = (NaN, NaN, NaN)" "position (nodes ?p ! j) = (NaN, NaN, NaN)"
      by blast+
    then show ?thesis by (simp add: near_def jsub_def del: populated_simps)
  qed
  then have "pushed (selectEdges cfg ?p) = []"
    by (intro pushed_nil_if_not_near) simp_all
  then have "connections (selectEdges cfg ?p) = []"
    by (simp add: selectEdges_connections)
  then show "\<exists>ns. generateMindMap cfg seed = Some \<lparr>nodes = ns, connections = []\<rparr> \<and>
             length ns = ring_size (centralNodes cfg) + ring_size (middleNodes cfg)
                         + ring_size (outerNodes cfg) \<and>
             (\<forall>n \<in> set ns. position n = (NaN, NaN, NaN))"
    using populated_special[OF sp, of cfg] length_populated[of cfg seed]
    by (simp add: generateMindMap_eq[OF fin] del: populated_simps)
qed

text \<open>Counts 0, -2 and 0 with the seed of the page; one central node with the seed
  \<^verbatim>\<open>Infinity\<close>.\<close>

theorem degenerate_inputs_witness:
  "le (centralNodes no_nodes) (Fin 0) \<and> le (middleNodes no_nodes) (Fin 0) \<and>
   le (outerNodes no_nodes) (Fin 0) \<and>
   generateMindMap no_nodes SEED = Some \<lparr>nodes = [], connections = []\<rparr> \<and>
   finite_counts one_central \<and>
   ring_size (centralNodes one_central) + ring_size (middleNodes one_central)
     + ring_size (outerNodes one_central) < 2 ^ 32 \<and>
   (\<exists>ns. generateMindMap one_central PInf = Some \<lparr>nodes = ns, connections = []\<rparr> \<and>
      length ns = 1)"
proof -
  have a: "le (centralNodes no_nodes) (Fin 0)" "le (middleNodes no_nodes) (Fin 0)"
    "le (outerNodes no_nodes) (Fin 0)"
    by (simp_all add: no_nodes_def le_def)
  with degenerate_inputs[of no_nodes SEED]
  have b: "generateMindMap no_nodes SEED = Some \<lparr>nodes = [], connections = []\<rparr>" by blast
  have f: "finite_counts one_central" by simp
  have sizes: "ring_size (centralNodes one_central) = 1" "ring_size (middleNodes one_central) = 0"
    "ring_size (outerNodes one_central) = 0"
    by (simp_all add: one_central_def)
  from degenerate_inputs[of one_central PInf] f
  have "\<exists>ns. generateMindMap one_central PInf = Some \<lparr>nodes = ns, connections = []\<rparr> \<and>
      length ns = 1"
    unfolding sizes by auto
  with a b f show ?thesis unfolding sizes by simp
qed

text \<open>
  Claim C3 says that a non-finite seed, like ring counts that are all zero or negative,
  gives an empty node list. The code has no test of the seed: with the seed \<^verbatim>\<open>NaN\<close> and one
  central node it returns that node, with the coordinates \<^verbatim>\<open>NaN\<close>.
\<close>

theorem degenerate_nonfinite_seed_counterexample:
  "generateMindMap one_central NaN =
     Some \<lparr>nodes = [\<lparr>position = (NaN, NaN, NaN)\<rparr>], connections = []\<rparr> \<and>
   generateMindMap one_central NaN \<noteq> Some \<lparr>nodes = [], connections = []\<rparr>"
  by (simp add: run_one_central_NaN)

subsection \<open>C4\<close>

text \<open>
  Claim C4 (zero connection distance). When \<^verbatim>\<open>connectionDistance\<close> is zero (and no ring
  count is \<^verbatim>\<open>Infinity\<close>, so that the call returns), no connection is emitted and the quotient
  \<^verbatim>\<open>d / config.connectionDistance\<close> of the opacity is never evaluated: a distance is never
  below zero, and the quotient is only evaluated after the distance test has passed.
\<close>

theorem zero_distance_no_division:
  assumes "connectionDistance cfg = Fin 0" "finite_counts cfg"
  shows "\<exists>g. run cfg seed = Some g \<and> connections g = [] \<and> divisions g = [] \<and>
             generateMindMap cfg seed = Some \<lparr>nodes = nodes g, connections = []\<rparr>"
proof -
  let ?p = "populated cfg seed"
  have "\<not> near cfg n m" for n m
    using distance_not_negative by (simp add: near_def assms(1))
  then have "pushed (selectEdges cfg ?p) = []"
    by (intro pushed_nil_if_not_near) simp_all
  then have "connections (selectEdges cfg ?p) = []" "divisions (selectEdges cfg ?p) = []"
    by (simp_all add: selectEdges_connections selectEdges_divisions)
  then show ?thesis
    using run_eq[OF assms(2), of seed] generateMindMap_eq[OF assms(2), of seed] by simp
qed

text \<open>The page's configuration with the distance set to zero.\<close>

theorem zero_distance_no_division_witness:
  "connectionDistance zero_distance = Fin 0 \<and> finite_counts zero_distance \<and>
   (\<exists>g. run zero_distance SEED = Some g \<and> connections g = [] \<and> divisions g = [])"
proof -
  have cd: "connectionDistance zero_distance = Fin 0" by (simp add: zero_distance_def)
  have f: "finite_counts zero_distance" by simp
  from zero_distance_no_division[OF cd f, of SEED] cd f show ?thesis by blast
qed

subsection \<open>C5\<close>

text \<open>
  Claim C5 as amended (the recurrence). When the state is a natural number \<open>k\<close> with
  \<open>k * 9301 + 49297 < 2 ^ 53\<close>, a call of \<^verbatim>\<open>seededRandom\<close> replaces it by
  \<open>(k * 9301 + 49297) mod 233280\<close> and returns the quotient of the new state and 233280, rounded
  to a double as every quotient is. The new state is such a number again, so from such a seed
  every call follows the recurrence. From the seed 1 the first state is 58598 and the first
  value is the double \<^verbatim>\<open>58598 / 233280\<close>, which is \<open>2262533701686011 / 2 ^ 53\<close>.
\<close>

theorem seededRandom_lcg:
  "(0 \<le> k \<and> k * 9301 + 49297 < 2 ^ 53 \<and> seedValue g = Fin (of_int k) \<longrightarrow>
      seededRandom g =
        (jdiv (Fin (of_int ((k * 9301 + 49297) mod 233280))) (Fin 233280),
         g\<lparr>seedValue := Fin (of_int ((k * 9301 + 49297) mod 233280)), draws := Suc (draws g)\<rparr>) \<and>
      0 \<le> (k * 9301 + 49297) mod 233280 \<and>
      ((k * 9301 + 49297) mod 233280) * 9301 + 49297 < 2 ^ 53) \<and>
   seedValue (snd (seededRandom (init (Fin 1)))) = Fin 58598 \<and>
   fst (seededRandom (init (Fin 1))) = jdiv (Fin 58598) (Fin 233280) \<and>
   jdiv (Fin 58598) (Fin 233280) = Fin (2262533701686011 / 2 ^ 53)"
proof (intro conjI impI)
  assume a: "0 \<le> k \<and> k * 9301 + 49297 < 2 ^ 53 \<and> seedValue g = Fin (of_int k)"
  then have "next_seed (seedValue g) = Fin (of_int ((k * 9301 + 49297) mod 233280))"
    using next_seed_int[of k] by simp
  then show "seededRandom g =
        (jdiv (Fin (of_int ((k * 9301 + 49297) mod 233280))) (Fin 233280),
         g\<lparr>seedValue := Fin (of_int ((k * 9301 + 49297) mod 233280)), draws := Suc (draws g)\<rparr>)"
    by (simp add: seededRandom_eq unit_of_def)
  show "0 \<le> (k * 9301 + 49297) mod 233280" by simp
  have "(k * 9301 + 49297) mod 233280 < 233280" by simp
  then show "((k * 9301 + 49297) mod 233280) * 9301 + 49297 < 2 ^ 53" by simp
next
  show "seedValue (snd (seededRandom (init (Fin 1)))) = Fin 58598"
    by (simp add: seededRandom_eq init_def seq_from_1)
  show "fst (seededRandom (init (Fin 1))) = jdiv (Fin 58598) (Fin 233280)"
    by (simp add: seededRandom_eq init_def seq_from_1 unit_of_def)
  show "jdiv (Fin 58598) (Fin 233280) = Fin (2262533701686011 / 2 ^ 53)"
    using first_value by simp
qed

text \<open>The state 1.\<close>

theorem seededRandom_lcg_witness:
  "(0::int) \<le> 1 \<and> (1::int) * 9301 + 49297 < 2 ^ 53 \<and> seedValue (init (Fin 1)) = Fin (of_int 1) \<and>
   seededRandom (init (Fin 1)) =
     (jdiv (Fin 58598) (Fin 233280), (init (Fin 1))\<lparr>seedValue := Fin 58598, draws := Suc 0\<rparr>)"
  using seededRandom_lcg[of 1 "init (Fin 1)"] by (simp add: init_def)

text \<open>
  Claim C5 says that every call replaces the state \<open>s\<close> by \<open>(s * 9301 + 49297) mod 233280\<close>. The
  operator \<^verbatim>\<open>%\<close> is a remainder with the sign of the dividend, and the product and the sum are
  rounded to doubles. From the seed \<open>- 10\<close> the state becomes \<open>- 43713\<close>, where the recurrence
  gives 189567. From the seed \<open>2 ^ 53\<close> the sum \<open>2 ^ 53 * 9301 + 49297\<close> is rounded to
  \<open>2 ^ 53 * 9301 + 49152\<close> and the state becomes 45824, where the recurrence gives 45969.
\<close>

theorem lcg_recurrence_counterexample:
  "seedValue (snd (seededRandom (init (Fin (- 10))))) = Fin (- 43713) \<and>
   (- 10 * 9301 + 49297) mod 233280 = (189567::int) \<and>
   seedValue (snd (seededRandom (init (Fin (2 ^ 53))))) = Fin 45824 \<and>
   (2 ^ 53 * 9301 + 49297) mod 233280 = (45969::int)"
proof (intro conjI)
  show "seedValue (snd (seededRandom (init (Fin (- 10))))) = Fin (- 43713)"
    unfolding state_after_draw by (rule next_seed_negative)
  show "seedValue (snd (seededRandom (init (Fin (2 ^ 53))))) = Fin 45824"
    unfolding state_after_draw by (rule next_seed_large)
qed simp_all

subsection \<open>C6\<close>

text \<open>
  Claim C6 (no self or duplicate edges). When the call returns, the connections are, in
  order, those of the index pairs in \<open>pushed\<close>: the \<open>k\<close>-th connection joins the nodes of the
  \<open>k\<close>-th pair. Every such pair \<open>(i, j)\<close> has \<open>i < j\<close>, so no connection joins a node with
  itself, and no unordered pair \<open>{i, j}\<close> occurs twice.
\<close>

theorem no_self_or_duplicate_edges:
  assumes "finite_counts cfg"
  shows "\<exists>g. run cfg seed = Some g \<and>
           generateMindMap cfg seed = Some \<lparr>nodes = nodes g, connections = connections g\<rparr> \<and>
           length (connections g) = length (pushed g) \<and>
           (\<forall>k < length (pushed g).
              fst (pushed g ! k) < snd (pushed g ! k) \<and>
              snd (pushed g ! k) < length (nodes g) \<and>
              fromPos (connections g ! k) = position (nodes g ! fst (pushed g ! k)) \<and>
              toPos (connections g ! k) = position (nodes g ! snd (pushed g ! k))) \<and>
           distinct (map (\<lambda>(i, j). {i, j}) (pushed g))"
proof -
  let ?p = "populated cfg seed"
  let ?q = "selectEdges cfg ?p"
  have run: "run cfg seed = Some ?q" by (rule run_eq[OF assms])
  have sub: "subseq (pushed ?q) (visited_pairs (length (nodes ?p)))"
    by (rule selectEdges_pushed) simp
  have conn: "connections ?q = map (\<lambda>(i, j). edge_of cfg (nodes ?p ! i) (nodes ?p ! j)) (pushed ?q)"
    by (rule selectEdges_connections) simp_all
  have ordered: "\<forall>(i, j) \<in> set (pushed ?q). i < j \<and> j < length (nodes ?q)"
    using subseq_subset[OF sub] by (auto simp: visited_pairs_set simp del: populated_simps)
  have len: "length (connections ?q) = length (pushed ?q)"
    by (subst conn) simp
  have nth: "fst (pushed ?q ! k) < snd (pushed ?q ! k) \<and>
              snd (pushed ?q ! k) < length (nodes ?q) \<and>
              fromPos (connections ?q ! k) = position (nodes ?q ! fst (pushed ?q ! k)) \<and>
              toPos (connections ?q ! k) = position (nodes ?q ! snd (pushed ?q ! k))"
    if k: "k < length (pushed ?q)" for k
  proof -
    obtain i j where ij: "pushed ?q ! k = (i, j)" by (cases "pushed ?q ! k")
    have "(i, j) \<in> set (pushed ?q)" using k ij by (metis nth_mem)
    with ordered have o: "i < j \<and> j < length (nodes ?q)" by blast
    have "connections ?q ! k = edge_of cfg (nodes ?p ! i) (nodes ?p ! j)"
      by (subst conn) (simp add: k ij del: populated_simps)
    then show ?thesis using o by (simp add: ij edge_of_def del: populated_simps)
  qed
  have dist: "distinct (map (\<lambda>(i, j). {i, j}) (pushed ?q))"
    by (rule distinct_unordered[OF subseq_distinct[OF sub visited_pairs_distinct]])
       (use ordered in auto)
  from nth have all: "\<forall>k < length (pushed ?q).
              fst (pushed ?q ! k) < snd (pushed ?q ! k) \<and>
              snd (pushed ?q ! k) < length (nodes ?q) \<and>
              fromPos (connections ?q ! k) = position (nodes ?q ! fst (pushed ?q ! k)) \<and>
              toPos (connections ?q ! k) = position (nodes ?q ! snd (pushed ?q ! k))"
    by (intro allI impI)
  show ?thesis
    by (intro exI[of _ ?q] conjI run generateMindMap_run[OF run] len all dist)
qed

text \<open>Two central nodes from the seed 1: one connection, for the pair \<open>(0, 1)\<close>.\<close>

theorem no_self_or_duplicate_edges_witness:
  "finite_counts two_central \<and>
   map_option pushed (run two_central (Fin 1)) = Some [(0, 1)] \<and>
   map_option (length \<circ> connections) (run two_central (Fin 1)) = Some 1 \<and>
   (\<exists>g. run two_central (Fin 1) = Some g \<and>
      fromPos (connections g ! 0) = position (nodes g ! 0) \<and>
      toPos (connections g ! 0) = position (nodes g ! 1) \<and>
      distinct (map (\<lambda>(i, j). {i, j}) (pushed g)))"
proof -
  from no_self_or_duplicate_edges[of two_central "Fin 1"] obtain g where
    g: "run two_central (Fin 1) = Some g"
    and nth: "\<forall>k < length (pushed g).
              fst (pushed g ! k) < snd (pushed g ! k) \<and>
              snd (pushed g ! k) < length (nodes g) \<and>
              fromPos (connections g ! k) = position (nodes g ! fst (pushed g ! k)) \<and>
              toPos (connections g ! k) = position (nodes g ! snd (pushed g ! k))"
    and d: "distinct (map (\<lambda>(i, j). {i, j}) (pushed g))"
    by auto
  from g have p: "pushed g = [(0, 1)]" and c: "length (connections g) = 1"
    by (auto simp: run_two_central)
  from nth p have "fromPos (connections g ! 0) = position (nodes g ! 0) \<and>
      toPos (connections g ! 0) = position (nodes g ! 1)" by simp
  with g p c d show ?thesis by simp
qed

subsection \<open>C7\<close>



subsection \<open>C8\<close>

text \<open>
  Claim C8 (opacity). The opacity of every emitted connection is
  \<^verbatim>\<open>Math.max(0.2, 1 - d / connectionDistance)\<close> for the distance \<open>d\<close> of its endpoints, where
  \<^verbatim>\<open>0.2\<close> is the double nearest to one fifth, which is a little above it; it lies between that
  double and 1, both included, hence between one fifth and 1; and it is exactly 1 when \<open>d\<close> is
  zero (the connection distance is then positive, since the distance test has passed).
\<close>

theorem opacity_formula_and_bounds:
  assumes "finite_counts cfg"
  shows "\<exists>r. generateMindMap cfg seed = Some r \<and>
           (\<forall>c \<in> set (connections r).
              opacity c = Math_max (to_double (1 / 5))
                (jsub (Fin 1) (jdiv (distance (fromPos c) (toPos c)) (connectionDistance cfg))) \<and>
              le (to_double (1 / 5)) (opacity c) \<and> le (Fin (1 / 5)) (opacity c) \<and>
              le (opacity c) (Fin 1) \<and>
              (distance (fromPos c) (toPos c) = Fin 0 \<longrightarrow> opacity c = Fin 1))"
proof -
  have "opacity c = Math_max (to_double (1 / 5))
                (jsub (Fin 1) (jdiv (distance (fromPos c) (toPos c)) (connectionDistance cfg))) \<and>
              le (to_double (1 / 5)) (opacity c) \<and> le (Fin (1 / 5)) (opacity c) \<and>
              le (opacity c) (Fin 1) \<and>
              (distance (fromPos c) (toPos c) = Fin 0 \<longrightarrow> opacity c = Fin 1)"
    if "c \<in> set (connections (selectEdges cfg (populated cfg seed)))" for c
  proof -
    from connection_cases[OF that] obtain n m where c: "c = edge_of cfg n m" and nm: "near cfg n m"
      by blast
    from edge_opacity[OF nm] obtain v where v: "opacity (edge_of cfg n m) = Fin v"
      "le (to_double (1 / 5)) (Fin v)" "1 / 5 \<le> v" "v \<le> 1"
      "distance (position n) (position m) = Fin 0 \<longrightarrow> v = 1" by blast
    have f: "fromPos c = position n" "toPos c = position m"
      "opacity c = opacity_of cfg (distance (position n) (position m))"
      by (simp_all add: c edge_of_def)
    have o: "opacity c = Fin v" using v(1) by (simp add: c)
    have 1: "opacity c = Math_max (to_double (1 / 5))
                (jsub (Fin 1) (jdiv (distance (fromPos c) (toPos c)) (connectionDistance cfg)))"
      unfolding f by (simp add: opacity_of_def)
    have 2: "le (Fin (1 / 5)) (opacity c)" "le (opacity c) (Fin 1)"
      using v(3,4) unfolding o by (auto simp: le_def)
    have 3: "distance (fromPos c) (toPos c) = Fin 0 \<longrightarrow> opacity c = Fin 1"
      using v(5) unfolding o f by simp
    from 1 v(2) 2 3 show ?thesis unfolding o by blast
  qed
  then have all: "\<forall>c \<in> set (connections (selectEdges cfg (populated cfg seed))).
              opacity c = Math_max (to_double (1 / 5))
                (jsub (Fin 1) (jdiv (distance (fromPos c) (toPos c)) (connectionDistance cfg))) \<and>
              le (to_double (1 / 5)) (opacity c) \<and> le (Fin (1 / 5)) (opacity c) \<and>
              le (opacity c) (Fin 1) \<and>
              (distance (fromPos c) (toPos c) = Fin 0 \<longrightarrow> opacity c = Fin 1)"
    by blast
  have sel: "connections \<lparr>nodes = nodes (populated cfg seed),
      connections = connections (selectEdges cfg (populated cfg seed))\<rparr>
    = connections (selectEdges cfg (populated cfg seed))" by simp
  show ?thesis
    apply (rule exI)
    apply (rule conjI[OF generateMindMap_eq[OF assms]])
    unfolding sel by (rule all)
qed

text \<open>Two central nodes from the seed 1: the opacity of the one connection is within the
  bounds.\<close>

theorem opacity_formula_and_bounds_witness:
  "finite_counts two_central \<and>
   (\<exists>r c. generateMindMap two_central (Fin 1) = Some r \<and> connections r = [c] \<and>
      le (to_double (1 / 5)) (opacity c) \<and> le (Fin (1 / 5)) (opacity c) \<and>
      le (opacity c) (Fin 1))"
proof -
  from opacity_formula_and_bounds[of two_central "Fin 1"] obtain r where
    r: "generateMindMap two_central (Fin 1) = Some r"
    and a: "\<forall>c \<in> set (connections r). le (to_double (1 / 5)) (opacity c) \<and>
          le (Fin (1 / 5)) (opacity c) \<and> le (opacity c) (Fin 1)"
    by auto
  from r obtain c where c: "connections r = [c]"
    by (auto simp: generateMindMap_def run_two_central mindmap.truncate_def)
  with a have "le (to_double (1 / 5)) (opacity c) \<and> le (Fin (1 / 5)) (opacity c) \<and>
      le (opacity c) (Fin 1)" by simp
  with r c show ?thesis by auto
qed

subsection \<open>C9\<close>

text \<open>
  Claim C9 as amended (ring radius containment). Let the seed be finite and not negative, and
  small enough for \<^verbatim>\<open>seed * 9301 + 49297\<close> not to overflow (\<open>good\<close>; every seed up to \<open>2 ^ 1000\<close>
  is), and let no ring count be \<^verbatim>\<open>Infinity\<close>. The node list has the nodes of the central ring
  first, then those of the middle ring, then those of the outer ring, \<open>ring_size\<close> of the count
  each. The coordinates are rounded products of a rounded cosine or sine and a radius drawn
  from \<open>[0.5, 2]\<close>, \<open>[3, 5]\<close> or \<open>[5, 9]\<close>, so the planar radius of a node lies in that interval
  widened by the relative tolerance \<open>1 / 2 ^ 50\<close>. When the seed is moreover a natural number
  with \<open>seed * 9301 + 49297 < 2 ^ 53\<close>, the planar radius is strictly below 2, 5 and 9
  respectively.
\<close>

theorem ring_radius_containment:
  assumes "good seed" "finite_counts cfg"
  shows "\<exists>r. generateMindMap cfg seed = Some r \<and>
     length (nodes r) = ring_size (centralNodes cfg) + ring_size (middleNodes cfg)
                        + ring_size (outerNodes cfg) \<and>
     (\<forall>k < ring_size (centralNodes cfg).
        close_to (1 / 2) 2 (planar_radius (nodes r ! k)) \<and>
        (exact_seed seed \<longrightarrow> lt (planar_radius (nodes r ! k)) (Fin 2))) \<and>
     (\<forall>k < ring_size (middleNodes cfg).
        close_to 3 5 (planar_radius (nodes r ! (ring_size (centralNodes cfg) + k))) \<and>
        (exact_seed seed \<longrightarrow>
           lt (planar_radius (nodes r ! (ring_size (centralNodes cfg) + k))) (Fin 5))) \<and>
     (\<forall>k < ring_size (outerNodes cfg).
        close_to 5 9 (planar_radius
          (nodes r ! (ring_size (centralNodes cfg) + ring_size (middleNodes cfg) + k))) \<and>
        (exact_seed seed \<longrightarrow>
           lt (planar_radius
             (nodes r ! (ring_size (centralNodes cfg) + ring_size (middleNodes cfg) + k)))
              (Fin 9)))"
proof -
  let ?A = "central_ring cfg seed" and ?B = "middle_ring cfg seed" and ?C = "outer_ring cfg seed"
  let ?a = "ring_size (centralNodes cfg)" and ?b = "ring_size (middleNodes cfg)"
  let ?c = "ring_size (outerNodes cfg)"
  have lA: "length ?A = ?a" and lB: "length ?B = ?b" and lC: "length ?C = ?c"
    by (simp_all add: central_ring_def middle_ring_def outer_ring_def)
  have A: "\<forall>n \<in> set ?A. close_to (1 / 2) 2 (planar_radius n)"
    unfolding central_ring_def using assms(1) by (rule central_close)
  have B: "\<forall>n \<in> set ?B. close_to 3 5 (planar_radius n)"
    unfolding middle_ring_def using good_funpow[OF assms(1)] by (rule middle_close)
  have C: "\<forall>n \<in> set ?C. close_to 5 9 (planar_radius n)"
    unfolding outer_ring_def using good_funpow[OF good_funpow[OF assms(1)]] by (rule outer_close)
  have A': "\<forall>n \<in> set ?A. lt (planar_radius n) (Fin 2)" if "exact_seed seed"
    unfolding central_ring_def using that by (rule central_below)
  have B': "\<forall>n \<in> set ?B. lt (planar_radius n) (Fin 5)" if "exact_seed seed"
    unfolding middle_ring_def using exact_funpow[OF that] by (rule middle_below)
  have C': "\<forall>n \<in> set ?C. lt (planar_radius n) (Fin 9)" if "exact_seed seed"
    unfolding outer_ring_def using exact_funpow[OF exact_funpow[OF that]] by (rule outer_below)
  have nA: "(?A @ ?B @ ?C) ! k = ?A ! k" "?A ! k \<in> set ?A" if "k < ?a" for k
    using that by (simp_all add: nth_append lA)
  have nB: "(?A @ ?B @ ?C) ! (?a + k) = ?B ! k" "?B ! k \<in> set ?B" if "k < ?b" for k
    using that by (simp_all add: nth_append lA lB)
  have nC: "(?A @ ?B @ ?C) ! (?a + ?b + k) = ?C ! k" "?C ! k \<in> set ?C" if "k < ?c" for k
    using that by (simp_all add: nth_append lA lB lC)
  have 1: "\<forall>k < ?a. close_to (1 / 2) 2 (planar_radius ((?A @ ?B @ ?C) ! k)) \<and>
        (exact_seed seed \<longrightarrow> lt (planar_radius ((?A @ ?B @ ?C) ! k)) (Fin 2))"
    using A A' nA by metis
  have 2: "\<forall>k < ?b. close_to 3 5 (planar_radius ((?A @ ?B @ ?C) ! (?a + k))) \<and>
        (exact_seed seed \<longrightarrow> lt (planar_radius ((?A @ ?B @ ?C) ! (?a + k))) (Fin 5))"
    using B B' nB by metis
  have 3: "\<forall>k < ?c. close_to 5 9 (planar_radius ((?A @ ?B @ ?C) ! (?a + ?b + k))) \<and>
        (exact_seed seed \<longrightarrow> lt (planar_radius ((?A @ ?B @ ?C) ! (?a + ?b + k))) (Fin 9))"
    using C C' nC by metis
  have len: "length (?A @ ?B @ ?C) = ?a + ?b + ?c" by (simp add: lA lB lC)
  show ?thesis
    unfolding generateMindMap_eq[OF assms(2)] populated_simps
    using 1 2 3 len by simp
qed

text \<open>The configuration and the seed of the page: 121 nodes; the first and the last node of
  the central ring, the first node of the middle ring and the last node of the outer ring. The
  same configuration with the seed 1: the last node of each ring.\<close>

theorem ring_radius_containment_witness:
  "good SEED \<and> finite_counts CONFIG \<and> good (Fin 1) \<and> exact_seed (Fin 1) \<and>
   (\<exists>r. generateMindMap CONFIG SEED = Some r \<and> length (nodes r) = 121 \<and>
      close_to (1 / 2) 2 (planar_radius (nodes r ! 0)) \<and>
      close_to (1 / 2) 2 (planar_radius (nodes r ! 15)) \<and>
      close_to 3 5 (planar_radius (nodes r ! 16)) \<and>
      close_to 5 9 (planar_radius (nodes r ! 120))) \<and>
   (\<exists>r. generateMindMap CONFIG (Fin 1) = Some r \<and> length (nodes r) = 121 \<and>
      lt (planar_radius (nodes r ! 15)) (Fin 2) \<and>
      lt (planar_radius (nodes r ! 37)) (Fin 5) \<and>
      lt (planar_radius (nodes r ! 120)) (Fin 9))"
proof -
  have sizes: "ring_size (centralNodes CONFIG) = 16" "ring_size (middleNodes CONFIG) = 22"
    "ring_size (outerNodes CONFIG) = 83"
    by (simp_all add: CONFIG_def)
  have f: "finite_counts CONFIG" by simp
  have e: "exact_seed (Fin 1)" by simp
  have g1: "good (Fin 1)" by (rule exact_seed_good[OF e])
  from ring_radius_containment[OF good_SEED f] obtain r where
    r: "generateMindMap CONFIG SEED = Some r" "length (nodes r) = 121"
    and A: "\<forall>k < 16. close_to (1 / 2) 2 (planar_radius (nodes r ! k))"
    and B: "\<forall>k < 22. close_to 3 5 (planar_radius (nodes r ! (16 + k)))"
    and C: "\<forall>k < 83. close_to 5 9 (planar_radius (nodes r ! (16 + 22 + k)))"
    unfolding sizes by auto
  from A have "close_to (1 / 2) 2 (planar_radius (nodes r ! 0))"
    "close_to (1 / 2) 2 (planar_radius (nodes r ! 15))" by simp_all
  moreover from B[rule_format, of 0] have "close_to 3 5 (planar_radius (nodes r ! 16))" by simp
  moreover from C[rule_format, of 82] have "close_to 5 9 (planar_radius (nodes r ! 120))" by simp
  ultimately have first: "\<exists>r. generateMindMap CONFIG SEED = Some r \<and> length (nodes r) = 121 \<and>
      close_to (1 / 2) 2 (planar_radius (nodes r ! 0)) \<and>
      close_to (1 / 2) 2 (planar_radius (nodes r ! 15)) \<and>
      close_to 3 5 (planar_radius (nodes r ! 16)) \<and>
      close_to 5 9 (planar_radius (nodes r ! 120))"
    using r by blast
  from ring_radius_containment[OF g1 f] e obtain q where
    q: "generateMindMap CONFIG (Fin 1) = Some q" "length (nodes q) = 121"
    and A: "\<forall>k < 16. lt (planar_radius (nodes q ! k)) (Fin 2)"
    and B: "\<forall>k < 22. lt (planar_radius (nodes q ! (16 + k))) (Fin 5)"
    and C: "\<forall>k < 83. lt (planar_radius (nodes q ! (16 + 22 + k))) (Fin 9)"
    unfolding sizes by auto
  from A have "lt (planar_radius (nodes q ! 15)) (Fin 2)" by simp
  moreover from B[rule_format, of 21] have "lt (planar_radius (nodes q ! 37)) (Fin 5)" by simp
  moreover from C[rule_format, of 82] have "lt (planar_radius (nodes q ! 120)) (Fin 9)" by simp
  ultimately have second: "\<exists>r. generateMindMap CONFIG (Fin 1) = Some r \<and> length (nodes r) = 121 \<and>
      lt (planar_radius (nodes r ! 15)) (Fin 2) \<and>
      lt (planar_radius (nodes r ! 37)) (Fin 5) \<and>
      lt (planar_radius (nodes r ! 120)) (Fin 9)"
    using q by blast
  from good_SEED f g1 e first second show ?thesis by blast
qed

text \<open>
  Claim C9 speaks of every finite seed that is not negative. For the seed \<open>2 ^ 1020\<close> the product
  \<^verbatim>\<open>seedValue * 9301\<close> of the first draw overflows to \<^verbatim>\<open>Infinity\<close>, the remainder is \<^verbatim>\<open>NaN\<close>,
  and so is every later state: with one central node, that node has the coordinates \<^verbatim>\<open>NaN\<close>
  and its planar radius is in no interval.
\<close>

theorem ring_radius_overflow_counterexample:
  "huge_seed = Fin (2 ^ 1020) \<and> (0::real) \<le> 2 ^ 1020 \<and> finite_counts one_central \<and>
   ring_size (centralNodes one_central) = 1 \<and>
   generateMindMap one_central huge_seed =
     Some \<lparr>nodes = [\<lparr>position = (NaN, NaN, NaN)\<rparr>], connections = []\<rparr> \<and>
   planar_radius \<lparr>position = (NaN, NaN, NaN)\<rparr> = NaN \<and>
   \<not> in_range (1 / 2) 2 (planar_radius \<lparr>position = (NaN, NaN, NaN)\<rparr>)"
proof (intro conjI)
  show "huge_seed = Fin (2 ^ 1020)" by (simp add: huge_seed_def)
  show "ring_size (centralNodes one_central) = 1" by (simp add: one_central_def)
  show "generateMindMap one_central huge_seed =
     Some \<lparr>nodes = [\<lparr>position = (NaN, NaN, NaN)\<rparr>], connections = []\<rparr>"
    by (rule run_one_central_overflow)
qed (simp_all add: planar_radius_def in_range_def le_def)

subsection \<open>C10\<close>



end
